theory Spec2Isabelle
  imports Complex_Main "HOL-Library.AList" "HOL-Library.Sublist"
begin

section \<open>Python strings\<close>

text \<open>
  The vault indexer (\<^verbatim>\<open>rag-service/indexer.py\<close>) works on Python \<^verbatim>\<open>str\<close> values.
  A string is modelled as a list of characters, \<^verbatim>\<open>len\<close> as an integer; a character is a
  code point below 256. \<open>is_space\<close> lists the code points below 256 that \<^verbatim>\<open>str.strip()\<close>
  removes and that the regular expression class \<^verbatim>\<open>\s\<close> matches on a \<^verbatim>\<open>str\<close> pattern: the
  ASCII ones, the next-line control U+0085 and the no-break space U+00A0.
\<close>

definition nl :: char where
  "nl = CHR 0x0A"

definition is_space :: "char \<Rightarrow> bool" where
  "is_space c \<longleftrightarrow>
     c = CHR '' '' \<or> c = CHR 0x09 \<or> c = CHR 0x0A \<or> c = CHR 0x0B \<or> c = CHR 0x0C \<or>
     c = CHR 0x0D \<or> c = CHR 0x1C \<or> c = CHR 0x1D \<or> c = CHR 0x1E \<or> c = CHR 0x1F \<or>
     c = CHR 0x85 \<or> c = CHR 0xA0"

definition len :: "string \<Rightarrow> int" where
  "len s = int (length s)"

text \<open>\<^verbatim>\<open>s.strip()\<close>: leading and trailing whitespace removed.\<close>

definition strip :: "string \<Rightarrow> string" where
  "strip s = rev (dropWhile is_space (rev (dropWhile is_space s)))"

text \<open>A string that is not empty and has no whitespace at either end.\<close>

definition stripped :: "string \<Rightarrow> bool" where
  "stripped s \<longleftrightarrow> s \<noteq> [] \<and> \<not> is_space (hd s) \<and> \<not> is_space (last s)"

text \<open>
  \<^verbatim>\<open>content.split("\n\n")\<close>: the pieces between the non-overlapping occurrences of two
  newlines, found from the left; the first argument collects the current piece, reversed.
\<close>

fun split_blank :: "string \<Rightarrow> string \<Rightarrow> string list" where
  "split_blank acc [] = [rev acc]"
| "split_blank acc [c] = [rev (c # acc)]"
| "split_blank acc (a # b # cs) =
     (if a = nl \<and> b = nl then rev acc # split_blank [] cs
      else split_blank (a # acc) (b # cs))"

definition split_paragraphs :: "string \<Rightarrow> string list" where
  "split_paragraphs body = split_blank [] body"

text \<open>
  \<^verbatim>\<open>re.split(r'(?<=[.!?])\s+', text)\<close>: a separator is a maximal run of whitespace whose
  preceding character is one of \<^verbatim>\<open>.\<close>, \<^verbatim>\<open>!\<close>, \<^verbatim>\<open>?\<close>. The flag says whether the character
  just before the rest of the text is such a punctuation mark.
\<close>

definition is_sentence_end :: "char \<Rightarrow> bool" where
  "is_sentence_end c \<longleftrightarrow> c = CHR ''.'' \<or> c = CHR ''!'' \<or> c = CHR ''?''"

function re_split_sentences :: "bool \<Rightarrow> string \<Rightarrow> string \<Rightarrow> string list" where
  "re_split_sentences after_end acc [] = [rev acc]"
| "re_split_sentences after_end acc (c # cs) =
     (if after_end \<and> is_space c
      then rev acc # re_split_sentences False [] (dropWhile is_space cs)
      else re_split_sentences (is_sentence_end c) (c # acc) cs)"
  by pat_completeness auto
termination
  by (relation "measure (\<lambda>(e, acc, s). length s)")
     (auto simp: length_dropWhile_le less_Suc_eq_le)

text \<open>\<^verbatim>\<open>_split_sentences\<close>: \<^verbatim>\<open>[s.strip() for s in sentences if s.strip()]\<close>.\<close>

definition split_sentences :: "string \<Rightarrow> string list" where
  "split_sentences para =
     map strip (filter (\<lambda>s. strip s \<noteq> []) (re_split_sentences False [] para))"

section \<open>The chunker\<close>

record VaultIndexer =
  chunk_size :: int
  chunk_overlap :: int

text \<open>
  The state of both loops of \<^verbatim>\<open>chunk_document\<close> is the pair of \<^verbatim>\<open>chunks\<close> and
  \<^verbatim>\<open>current_chunk\<close>. \<open>flush\<close> is \<^verbatim>\<open>if current_chunk: chunks.append(current_chunk.strip())\<close>.
\<close>

type_synonym chunk_state = "string list \<times> string"

definition flush :: "chunk_state \<Rightarrow> string list" where
  "flush st = (case st of (chunks, current_chunk) \<Rightarrow>
     if current_chunk \<noteq> [] then chunks @ [strip current_chunk] else chunks)"

text \<open>The body of the inner loop \<^verbatim>\<open>for sentence in sentences\<close>.\<close>

definition sentence_step :: "int \<Rightarrow> chunk_state \<Rightarrow> string \<Rightarrow> chunk_state" where
  "sentence_step n st sentence = (case st of (chunks, current_chunk) \<Rightarrow>
     if len current_chunk + len sentence + 1 > n
     then (flush (chunks, current_chunk), sentence)
     else (chunks, strip (current_chunk @ '' '' @ sentence)))"

text \<open>
  The body of the outer loop \<^verbatim>\<open>for para in paragraphs\<close>. When the paragraph is too long
  the sentence loop starts from the \<^verbatim>\<open>current_chunk\<close> that was just appended to
  \<^verbatim>\<open>chunks\<close>: the source does not reset it there.
\<close>

definition para_step :: "int \<Rightarrow> chunk_state \<Rightarrow> string \<Rightarrow> chunk_state" where
  "para_step n st p = (case st of (chunks, current_chunk) \<Rightarrow>
     let para = strip p in
     if para = [] then (chunks, current_chunk)
     else if len current_chunk + len para + 2 > n then
       (let chunks' = flush (chunks, current_chunk) in
        if len para > n
        then foldl (sentence_step n) (chunks', current_chunk) (split_sentences para)
        else (chunks', para))
     else (chunks, strip (current_chunk @ [nl, nl] @ para)))"

definition chunk_loop :: "int \<Rightarrow> string \<Rightarrow> chunk_state" where
  "chunk_loop n body = foldl (para_step n) ([], []) (split_paragraphs body)"

text \<open>
  \<^verbatim>\<open>chunk_document\<close> reads only \<^verbatim>\<open>doc.content\<close> and \<^verbatim>\<open>self.chunk_size\<close>; \<open>chunk_content\<close> is
  its body as a function of these two.
\<close>

definition chunk_content :: "int \<Rightarrow> string \<Rightarrow> string list" where
  "chunk_content n body =
     (if len body \<le> n then [body] else flush (chunk_loop n body))"

text \<open>
  The algorithm as the specification words it, for comparison with the code: when the
  next paragraph would overflow, the buffer is flushed and a new buffer is started; the
  sentences of a paragraph that is itself too long are packed by the same overflow rule
  into that new buffer.
\<close>

definition spec_para_step :: "int \<Rightarrow> chunk_state \<Rightarrow> string \<Rightarrow> chunk_state" where
  "spec_para_step n st p = (case st of (chunks, buffer) \<Rightarrow>
     let para = strip p in
     if para = [] then (chunks, buffer)
     else if len buffer + len para + 2 > n then
       (if len para > n
        then foldl (sentence_step n) (flush (chunks, buffer), []) (split_sentences para)
        else (flush (chunks, buffer), para))
     else (chunks, strip (buffer @ [nl, nl] @ para)))"

definition spec_chunk :: "int \<Rightarrow> string \<Rightarrow> string list" where
  "spec_chunk n body =
     (if len body \<le> n then [body]
      else flush (foldl (spec_para_step n) ([], []) (split_paragraphs body)))"

section \<open>Python values and exceptions\<close>

text \<open>
  The values \<^verbatim>\<open>yaml.safe_load\<close> can return and that end up in metadata dictionaries
  (floats and dates are left out), with Python's truth value of each.
\<close>

datatype pyval =
    PNone
  | PBool bool
  | PInt int
  | PStr string
  | PList "pyval list"
  | PDict "(pyval \<times> pyval) list"

fun truthy :: "pyval \<Rightarrow> bool" where
  "truthy PNone = False"
| "truthy (PBool b) = b"
| "truthy (PInt i) = (i \<noteq> 0)"
| "truthy (PStr s) = (s \<noteq> [])"
| "truthy (PList xs) = (xs \<noteq> [])"
| "truthy (PDict kvs) = (kvs \<noteq> [])"

datatype exn = YAMLError | AttributeError | TypeError | Failure string

datatype http_exception = HTTPException (status_code: nat)

text \<open>\<^verbatim>\<open>d.get(key, default)\<close> on a dictionary given by its items.\<close>

definition dict_get :: "(pyval \<times> pyval) list \<Rightarrow> string \<Rightarrow> pyval \<Rightarrow> pyval" where
  "dict_get kvs k d = (case map_of kvs (PStr k) of Some v \<Rightarrow> v | None \<Rightarrow> d)"

section \<open>The document parser\<close>

record ParsedDocument =
  path :: string
  title :: pyval
  content :: string
  category :: pyval
  tags :: pyval
  metadata :: "(pyval \<times> pyval) list"
  chunks :: "string list option"

definition starts_with :: "string \<Rightarrow> string \<Rightarrow> bool" where
  "starts_with p s \<longleftrightarrow> take (length p) s = p"

text \<open>
  \<^verbatim>\<open>FRONTMATTER_PATTERN = re.compile(r'^---\n(.*?)\n---\n?', re.DOTALL)\<close>, used with
  \<^verbatim>\<open>match\<close>: the text starts with three dashes and a newline; the lazy group ends at the
  first newline followed by three dashes; one more newline is taken when it is there.
  \<open>find_closing\<close> returns the group and the text after the closing dashes.
\<close>

fun find_closing :: "string \<Rightarrow> string \<Rightarrow> (string \<times> string) option" where
  "find_closing acc [] = None"
| "find_closing acc (c # cs) =
     (if starts_with (nl # ''---'') (c # cs) then Some (rev acc, drop 4 (c # cs))
      else find_closing (c # acc) cs)"

definition frontmatter_match :: "string \<Rightarrow> (string \<times> string) option" where
  "frontmatter_match raw =
     (if starts_with (''---'' @ [nl]) raw then
        (case find_closing [] (drop 4 raw) of
           None \<Rightarrow> None
         | Some (g, rest) \<Rightarrow> Some (g, if starts_with [nl] rest then tl rest else rest))
      else None)"

text \<open>
  \<^verbatim>\<open>HEADING_PATTERN = re.compile(r'^#\s+(.+)$', re.MULTILINE)\<close>, used with \<^verbatim>\<open>search\<close>.
  \<open>heading_at\<close> is given the text that follows a \<^verbatim>\<open>#\<close> at the start of a line and returns
  the group: the whitespace run may cross lines; when a character other than whitespace
  follows it, the group is the rest of that line; when the run reaches the end of the
  text, the expression backtracks and the group is the last character of the run that
  is not a newline, the first character of the run excluded.
\<close>

definition heading_at :: "string \<Rightarrow> string option" where
  "heading_at s =
     (let w = takeWhile is_space s; r = dropWhile is_space s in
      if w = [] then None
      else if r \<noteq> [] then Some (takeWhile (\<lambda>c. c \<noteq> nl) r)
      else (case dropWhile (\<lambda>c. c = nl) (rev (tl w)) of
              [] \<Rightarrow> None
            | c # _ \<Rightarrow> Some [c]))"

fun heading_search :: "bool \<Rightarrow> string \<Rightarrow> string option" where
  "heading_search line_start [] = None"
| "heading_search line_start (c # cs) =
     (case (if line_start \<and> c = CHR ''#'' then heading_at cs else None) of
        Some g \<Rightarrow> Some g
      | None \<Rightarrow> heading_search (c = nl) cs)"

text \<open>
  \<^verbatim>\<open>pathlib.Path\<close> on a POSIX system: \<^verbatim>\<open>parts\<close> are the root, when the path has one, and
  the components between slashes that are neither empty nor a single dot; \<^verbatim>\<open>stem\<close> is the
  last component without its last suffix.
\<close>

fun split_on :: "char \<Rightarrow> string \<Rightarrow> string \<Rightarrow> string list" where
  "split_on sep acc [] = [rev acc]"
| "split_on sep acc (c # cs) =
     (if c = sep then rev acc # split_on sep [] cs else split_on sep (c # acc) cs)"

definition path_root :: "string \<Rightarrow> string" where
  "path_root p =
     (if \<not> starts_with ''/'' p then []
      else if starts_with ''//'' p \<and> \<not> starts_with ''///'' p then ''//''
      else ''/'')"

definition path_tail :: "string \<Rightarrow> string list" where
  "path_tail p =
     filter (\<lambda>x. x \<noteq> [] \<and> x \<noteq> ''.'') (split_on CHR ''/'' [] (drop (length (path_root p)) p))"

definition path_parts :: "string \<Rightarrow> string list" where
  "path_parts p = (if path_root p \<noteq> [] then [path_root p] else []) @ path_tail p"

definition path_name :: "string \<Rightarrow> string" where
  "path_name p = (if path_tail p = [] then [] else last (path_tail p))"

definition path_stem :: "string \<Rightarrow> string" where
  "path_stem p =
     (let name = path_name p;
          k = length (takeWhile (\<lambda>c. c \<noteq> CHR ''.'') (rev name))
      in if 0 < k \<and> k + 1 < length name then take (length name - 1 - k) name else name)"

text \<open>
  \<^verbatim>\<open>s.replace(a, b)\<close> for single characters, and \<^verbatim>\<open>s.title()\<close> on code points below 256:
  the letters of ASCII and of Latin-1 whose other case is below 256 as well. The feminine
  and masculine ordinal indicators (U+00AA, U+00BA) are cased and have no other case. The
  micro sign, the sharp s and the y with diaeresis (U+00B5, U+00DF, U+00FF) are cased and
  lower case; their title case is not below 256 (or is two letters) and is left as it is
  here, the one place where \<open>title_case\<close> is not \<^verbatim>\<open>str.title()\<close>.
\<close>

definition replace_char :: "char \<Rightarrow> char \<Rightarrow> string \<Rightarrow> string" where
  "replace_char a b s = map (\<lambda>c. if c = a then b else c) s"

definition is_lower :: "char \<Rightarrow> bool" where
  "is_lower c \<longleftrightarrow>
     (97::nat) \<le> of_char c \<and> of_char c \<le> (122::nat) \<or>
     (224::nat) \<le> of_char c \<and> of_char c \<le> (254::nat) \<and> of_char c \<noteq> (247::nat)"

definition is_upper :: "char \<Rightarrow> bool" where
  "is_upper c \<longleftrightarrow>
     (65::nat) \<le> of_char c \<and> of_char c \<le> (90::nat) \<or>
     (192::nat) \<le> of_char c \<and> of_char c \<le> (222::nat) \<and> of_char c \<noteq> (215::nat)"

definition is_cased :: "char \<Rightarrow> bool" where
  "is_cased c \<longleftrightarrow>
     is_lower c \<or> is_upper c \<or> c = CHR 0xAA \<or> c = CHR 0xBA \<or> c = CHR 0xB5 \<or>
     c = CHR 0xDF \<or> c = CHR 0xFF"

definition to_upper :: "char \<Rightarrow> char" where
  "to_upper c = (if is_lower c then char_of (of_char c - (32::nat)) else c)"

definition to_lower :: "char \<Rightarrow> char" where
  "to_lower c = (if is_upper c then char_of (of_char c + (32::nat)) else c)"

fun title_case :: "bool \<Rightarrow> string \<Rightarrow> string" where
  "title_case prev_cased [] = []"
| "title_case prev_cased (c # cs) =
     (if is_cased c
      then (if prev_cased then to_lower c else to_upper c) # title_case True cs
      else c # title_case False cs)"

text \<open>
  The first part of \<^verbatim>\<open>parse_markdown\<close>: the metadata and the body. \<open>safe_load\<close> stands
  for \<^verbatim>\<open>yaml.safe_load\<close>, a library function: it returns a value or raises. Only
  \<^verbatim>\<open>yaml.YAMLError\<close> is caught, and then metadata and body keep their initial values.
\<close>

definition load_frontmatter ::
  "(string \<Rightarrow> exn + pyval) \<Rightarrow> string \<Rightarrow> exn + (pyval \<times> string)" where
  "load_frontmatter safe_load raw =
     (case frontmatter_match raw of
        None \<Rightarrow> Inr (PDict [], raw)
      | Some (frontmatter_text, rest) \<Rightarrow>
          (case safe_load frontmatter_text of
             Inl e \<Rightarrow> if e = YAMLError then Inr (PDict [], raw) else Inl e
           | Inr v \<Rightarrow> Inr (if truthy v then v else PDict [], rest)))"

definition resolve_title :: "(pyval \<times> pyval) list \<Rightarrow> string \<Rightarrow> string \<Rightarrow> pyval" where
  "resolve_title kvs body p =
     (let t = dict_get kvs ''title'' PNone in
      if truthy t then t
      else (case heading_search True body of
              Some g \<Rightarrow> PStr (strip g)
            | None \<Rightarrow>
                PStr (title_case False
                  (replace_char CHR ''_'' CHR '' '' (replace_char CHR ''-'' CHR '' '' (path_stem p))))))"

definition resolve_category :: "(pyval \<times> pyval) list \<Rightarrow> string \<Rightarrow> pyval" where
  "resolve_category kvs p =
     (let c = dict_get kvs ''category'' PNone in
      if truthy c then c
      else if length (path_parts p) > 1 then PStr (path_parts p ! 0)
      else c)"

definition resolve_tags :: "(pyval \<times> pyval) list \<Rightarrow> pyval" where
  "resolve_tags kvs =
     (case dict_get kvs ''tags'' (PList []) of
        PStr s \<Rightarrow> PList (map (\<lambda>t. PStr (strip t)) (split_on CHR '','' [] s))
      | t \<Rightarrow> t)"

text \<open>
  \<^verbatim>\<open>parse_markdown\<close>. \<^verbatim>\<open>metadata.get\<close> exists on dictionaries only: on any other value
  the first call raises \<^verbatim>\<open>AttributeError\<close>, outside the \<^verbatim>\<open>try\<close> block.
\<close>

definition parse_markdown ::
  "(string \<Rightarrow> exn + pyval) \<Rightarrow> string \<Rightarrow> string \<Rightarrow> exn + ParsedDocument" where
  "parse_markdown safe_load raw p =
     (case load_frontmatter safe_load raw of
        Inl e \<Rightarrow> Inl e
      | Inr (md, body) \<Rightarrow>
          (case md of
             PDict kvs \<Rightarrow>
               Inr \<lparr> path = p, title = resolve_title kvs body p, content = strip body,
                     category = resolve_category kvs p, tags = resolve_tags kvs,
                     metadata = kvs, chunks = None \<rparr>
           | _ \<Rightarrow> Inl AttributeError))"

definition chunk_document :: "VaultIndexer \<Rightarrow> ParsedDocument \<Rightarrow> string list" where
  "chunk_document self doc = chunk_content (chunk_size self) (content doc)"

section \<open>The indexing service\<close>

text \<open>
  \<^verbatim>\<open>rag-service/main.py\<close>. An entry of the vector collection holds an embedding, a
  metadata dictionary with string keys, and the text. The collection is the list of its
  (identifier, entry) pairs: \<^verbatim>\<open>upsert\<close> replaces the entry of an identifier that is present
  and appends otherwise (\<open>AList.update\<close>), \<^verbatim>\<open>delete\<close> removes it (\<open>AList.delete\<close>),
  \<^verbatim>\<open>count()\<close> is the length. The metadata of a stored entry is what the collection keeps
  of the dictionary given to \<^verbatim>\<open>upsert\<close> (\<open>stored_metadata\<close> below). The embedding type is
  left open.
\<close>

record 'e IndexEntry =
  embedding :: 'e
  entry_metadata :: "string \<rightharpoonup> pyval"
  document :: string

type_synonym 'e collection = "(string \<times> 'e IndexEntry) list"

text \<open>
  \<^verbatim>\<open>AppState\<close>: the embedder is given by its \<^verbatim>\<open>encode\<close>, which returns a vector or raises.
\<close>

record 'e AppState =
  embedder :: "(string \<Rightarrow> exn + 'e) option"
  collection :: "'e collection option"
  indexer :: "VaultIndexer option"
  last_indexed :: "string option"

text \<open>
  The library functions the service calls: \<^verbatim>\<open>yaml.safe_load\<close>,
  \<^verbatim>\<open>hashlib.md5(s.encode()).hexdigest()\<close>, and what \<^verbatim>\<open>collection.upsert\<close> does with a
  metadata dictionary: it raises, or it stores a dictionary, which need not be the one
  it was given.
\<close>

record Env =
  yaml_safe_load :: "string \<Rightarrow> exn + pyval"
  md5_hexdigest :: "string \<Rightarrow> string"
  stored_metadata :: "(string \<rightharpoonup> pyval) \<Rightarrow> exn + (string \<rightharpoonup> pyval)"

text \<open>
  A collection that stores no key whose value is \<^verbatim>\<open>None\<close> and stores every other key as
  given: the behaviour used in the examples.
\<close>

definition drop_none :: "(string \<rightharpoonup> pyval) \<Rightarrow> exn + (string \<rightharpoonup> pyval)" where
  "drop_none md = Inr (\<lambda>k. if md k = Some PNone then None else md k)"

text \<open>
  The vault directory as the sweep sees it: whether it exists, the relative paths of the
  files \<^verbatim>\<open>rglob("*.md")\<close> finds, and what \<^verbatim>\<open>read_text\<close> gives for each.
\<close>

record Vault =
  vault_path :: string
  vault_exists :: bool
  md_files :: "string list"
  read_text :: "string \<Rightarrow> exn + string"

record IndexRequest =
  request_path :: string
  request_content :: string
  request_metadata :: "(string \<rightharpoonup> pyval) option"

record IndexResponse =
  index_success :: bool
  response_path :: string
  doc_id :: string
  response_title :: pyval

record SweepResponse =
  sweep_success :: bool
  indexed :: nat
  total_files :: nat
  errors :: "(string \<times> exn) list option"

definition count :: "'e AppState \<Rightarrow> nat" where
  "count st = (case collection st of None \<Rightarrow> 0 | Some col \<Rightarrow> length col)"

text \<open>\<^verbatim>\<open>",".join(doc.tags)\<close>: the items must all be strings.\<close>

fun comma_join :: "string list \<Rightarrow> string" where
  "comma_join [] = []"
| "comma_join [x] = x"
| "comma_join (x # y # ys) = x @ '','' @ comma_join (y # ys)"

fun str_items :: "pyval list \<Rightarrow> string list option" where
  "str_items [] = Some []"
| "str_items (PStr s # xs) = (case str_items xs of None \<Rightarrow> None | Some ss \<Rightarrow> Some (s # ss))"
| "str_items (_ # xs) = None"

definition join_tags :: "pyval \<Rightarrow> exn + string" where
  "join_tags t =
     (case t of
        PList xs \<Rightarrow> (case str_items xs of None \<Rightarrow> Inl TypeError | Some ss \<Rightarrow> Inr (comma_join ss))
      | PDict kvs \<Rightarrow>
          (case str_items (map fst kvs) of None \<Rightarrow> Inl TypeError | Some ss \<Rightarrow> Inr (comma_join ss))
      | PStr s \<Rightarrow> Inr (comma_join (map (\<lambda>c. [c]) s))
      | _ \<Rightarrow> Inl TypeError)"

text \<open>\<^verbatim>\<open>request.metadata or {}\<close>.\<close>

definition extra_metadata :: "IndexRequest \<Rightarrow> (string \<rightharpoonup> pyval)" where
  "extra_metadata request = (case request_metadata request of None \<Rightarrow> Map.empty | Some m \<Rightarrow> m)"

text \<open>
  The metadata dictionary both endpoints build, before the caller's extra metadata and
  the tags are added.
\<close>

definition build_metadata :: "string \<Rightarrow> ParsedDocument \<Rightarrow> string \<Rightarrow> (string \<rightharpoonup> pyval)" where
  "build_metadata p doc now =
     [''path'' \<mapsto> PStr p,
      ''title'' \<mapsto> title doc,
      ''category'' \<mapsto> (if truthy (category doc) then category doc else PStr ''uncategorized''),
      ''indexed_at'' \<mapsto> PStr now]"

definition add_tags :: "ParsedDocument \<Rightarrow> (string \<rightharpoonup> pyval) \<Rightarrow> exn + (string \<rightharpoonup> pyval)" where
  "add_tags doc md =
     (if truthy (tags doc) then
        (case join_tags (tags doc) of Inl e \<Rightarrow> Inl e | Inr s \<Rightarrow> Inr (md(''tags'' \<mapsto> PStr s)))
      else Inr md)"

text \<open>The metadata dictionary passed to \<^verbatim>\<open>upsert\<close>.\<close>

definition upsert_metadata ::
  "string \<Rightarrow> ParsedDocument \<Rightarrow> (string \<rightharpoonup> pyval) \<Rightarrow> string \<Rightarrow> exn + (string \<rightharpoonup> pyval)" where
  "upsert_metadata p doc extra now = add_tags doc (build_metadata p doc now ++ extra)"

text \<open>
  The statements \<^verbatim>\<open>index_document\<close> and the loop of \<^verbatim>\<open>index_entire_vault\<close> have in common
  inside their \<^verbatim>\<open>try\<close> blocks: parse, derive the identifier from the path, embed the
  content, build the metadata, upsert. The sweep adds no extra metadata. The result is
  the identifier, the entry as the collection stores it and the parsed document, or the
  exception.
\<close>

definition index_entry ::
  "Env \<Rightarrow> 'e AppState \<Rightarrow> string \<Rightarrow> string \<Rightarrow> (string \<rightharpoonup> pyval) \<Rightarrow> string
     \<Rightarrow> exn + (string \<times> 'e IndexEntry \<times> ParsedDocument)" where
  "index_entry E st p raw extra now =
     (case parse_markdown (yaml_safe_load E) raw p of
        Inl e \<Rightarrow> Inl e
      | Inr doc \<Rightarrow>
          (case (case embedder st of None \<Rightarrow> Inl AttributeError | Some encode \<Rightarrow> encode (content doc)) of
             Inl e \<Rightarrow> Inl e
           | Inr emb \<Rightarrow>
               (case upsert_metadata p doc extra now of
                  Inl e \<Rightarrow> Inl e
                | Inr md \<Rightarrow>
                    (case stored_metadata E md of
                       Inl e \<Rightarrow> Inl e
                     | Inr kept \<Rightarrow>
                         Inr (md5_hexdigest E p,
                              \<lparr> embedding = emb, entry_metadata = kept, document = content doc \<rparr>,
                              doc)))))"

text \<open>
  \<^verbatim>\<open>index_document\<close>; \<open>now1\<close> and \<open>now2\<close> are its two readings of the clock. Any exception
  of the \<^verbatim>\<open>try\<close> block becomes the HTTP error 500.
\<close>

definition index_document ::
  "Env \<Rightarrow> 'e AppState \<Rightarrow> IndexRequest \<Rightarrow> string \<Rightarrow> string
     \<Rightarrow> http_exception + ('e AppState \<times> IndexResponse)" where
  "index_document E st request now1 now2 =
     (case (collection st, indexer st) of
        (Some col, Some ix) \<Rightarrow>
          (case index_entry E st (request_path request) (request_content request)
                  (extra_metadata request) now1 of
             Inl e \<Rightarrow> Inl (HTTPException 500)
           | Inr (i, entry, doc) \<Rightarrow>
               Inr (st\<lparr> collection := Some (AList.update i entry col), last_indexed := Some now2 \<rparr>,
                    \<lparr> index_success = True, response_path = request_path request,
                      doc_id = i, response_title = title doc \<rparr>))
      | _ \<Rightarrow> Inl (HTTPException 503))"

text \<open>
  One file of the sweep: \<open>k\<close> is the position of the file in the
  list and \<open>stamp k\<close> the reading of the clock made for it.
\<close>

definition file_result ::
  "Env \<Rightarrow> 'e AppState \<Rightarrow> Vault \<Rightarrow> (nat \<Rightarrow> string) \<Rightarrow> nat \<times> string
     \<Rightarrow> exn + (string \<times> 'e IndexEntry \<times> ParsedDocument)" where
  "file_result E st V stamp kf =
     (case read_text V (snd kf) of
        Inl e \<Rightarrow> Inl e
      | Inr raw \<Rightarrow> index_entry E st (snd kf) raw Map.empty (stamp (fst kf)))"

text \<open>\<^verbatim>\<open>str(md_file)\<close>, the name under which a failure is recorded.\<close>

definition file_str :: "Vault \<Rightarrow> string \<Rightarrow> string" where
  "file_str V rel = vault_path V @ ''/'' @ rel"

type_synonym 'e sweep_state = "'e collection \<times> nat \<times> (string \<times> exn) list"

definition sweep_step ::
  "Env \<Rightarrow> 'e AppState \<Rightarrow> Vault \<Rightarrow> (nat \<Rightarrow> string) \<Rightarrow> 'e sweep_state \<Rightarrow> nat \<times> string
     \<Rightarrow> 'e sweep_state" where
  "sweep_step E st V stamp s kf = (case s of (col, n, errs) \<Rightarrow>
     (case file_result E st V stamp kf of
        Inl e \<Rightarrow> (col, n, errs @ [(file_str V (snd kf), e)])
      | Inr (i, entry, doc) \<Rightarrow> (AList.update i entry col, n + 1, errs)))"

definition index_entire_vault ::
  "Env \<Rightarrow> Vault \<Rightarrow> 'e AppState \<Rightarrow> (nat \<Rightarrow> string) \<Rightarrow> string
     \<Rightarrow> http_exception + ('e AppState \<times> SweepResponse)" where
  "index_entire_vault E V st stamp now_end =
     (case (collection st, indexer st) of
        (Some col, Some ix) \<Rightarrow>
          if \<not> vault_exists V then Inl (HTTPException 404)
          else (case foldl (sweep_step E st V stamp) (col, 0, []) (List.enumerate 0 (md_files V)) of
                  (col', n, errs) \<Rightarrow>
                    Inr (st\<lparr> collection := Some col', last_indexed := Some now_end \<rparr>,
                         \<lparr> sweep_success = True, indexed = n,
                           total_files = length (md_files V),
                           errors = (if errs \<noteq> [] then Some errs else None) \<rparr>))
      | _ \<Rightarrow> Inl (HTTPException 503))"

definition delete_document ::
  "Env \<Rightarrow> 'e AppState \<Rightarrow> string \<Rightarrow> http_exception + ('e AppState \<times> string \<times> string)" where
  "delete_document E st p =
     (case collection st of
        None \<Rightarrow> Inl (HTTPException 503)
      | Some col \<Rightarrow>
          Inr (st\<lparr> collection := Some (AList.delete (md5_hexdigest E p) col) \<rparr>,
               p, md5_hexdigest E p))"

text \<open>
  The filter \<^verbatim>\<open>search_vault\<close> builds from \<^verbatim>\<open>request.filter_category\<close>, and the exact
  match the collection applies to the metadata of an entry.
\<close>

definition where_filter :: "string option \<Rightarrow> (string \<times> pyval) option" where
  "where_filter filter_category =
     (case filter_category of
        None \<Rightarrow> None
      | Some c \<Rightarrow> if c \<noteq> [] then Some (''category'', PStr c) else None)"

definition where_matches :: "(string \<times> pyval) option \<Rightarrow> (string \<rightharpoonup> pyval) \<Rightarrow> bool" where
  "where_matches w md = (case w of None \<Rightarrow> True | Some (k, v) \<Rightarrow> md k = Some v)"

text \<open>The length of the \<^verbatim>\<open>errors\<close> field of the sweep's response, \<^verbatim>\<open>None\<close> when empty.\<close>

definition errors_length :: "SweepResponse \<Rightarrow> nat" where
  "errors_length r = (case errors r of None \<Rightarrow> 0 | Some es \<Rightarrow> length es)"

section \<open>Notions used in the statements\<close>

subsection \<open>The chunker\<close>

text \<open>
  A chunk that may exceed \<^verbatim>\<open>chunk_size\<close>: one sentence, itself longer than \<^verbatim>\<open>chunk_size\<close>, of
  a paragraph longer than \<^verbatim>\<open>chunk_size\<close> (the whole paragraph when it has no sentence
  boundary).
\<close>

definition atomic_oversize :: "int \<Rightarrow> string \<Rightarrow> string \<Rightarrow> bool" where
  "atomic_oversize n body c \<longleftrightarrow>
     len c > n \<and>
     (\<exists>p\<in>set (split_paragraphs body). len (strip p) > n \<and> c \<in> set (split_sentences (strip p)))"

text \<open>
  The loop invariant of the size bound: every finished chunk is short enough or in the
  set \<open>S\<close> of admitted long chunks, and so is the buffer, unless it is empty.
\<close>

definition size_ok :: "int \<Rightarrow> string set \<Rightarrow> chunk_state \<Rightarrow> bool" where
  "size_ok n S st \<longleftrightarrow> (case st of (fin, cur) \<Rightarrow>
     (\<forall>c\<in>set fin. len c \<le> n \<or> c \<in> S) \<and>
     (cur = [] \<or> len cur \<le> n \<or> (cur \<in> S \<and> stripped cur)))"

text \<open>The loop invariant of trimming: finished chunks and a non-empty buffer are trimmed.\<close>

definition trimmed_state :: "chunk_state \<Rightarrow> bool" where
  "trimmed_state st \<longleftrightarrow> (case st of (fin, cur) \<Rightarrow>
     (\<forall>c\<in>set fin. stripped c) \<and> (cur = [] \<or> stripped cur))"

text \<open>
  The text of a string without its whitespace, and the text a loop state holds: that of
  the finished chunks followed by that of the buffer.
\<close>

definition squash :: "string \<Rightarrow> string" where
  "squash s = filter (\<lambda>c. \<not> is_space c) s"

definition text_of :: "chunk_state \<Rightarrow> string" where
  "text_of st = (case st of (fin, cur) \<Rightarrow> concat (map squash fin) @ squash cur)"

subsection \<open>The parser\<close>

text \<open>
  The body in which \<^verbatim>\<open>parse_markdown\<close> looks for a heading: the text after the
  frontmatter block when the block was loaded, the whole text otherwise.
\<close>

definition frontmatter_body :: "(string \<Rightarrow> exn + pyval) \<Rightarrow> string \<Rightarrow> string" where
  "frontmatter_body safe_load raw =
     (case load_frontmatter safe_load raw of Inr (md, body) \<Rightarrow> body | Inl e \<Rightarrow> raw)"

text \<open>The title derived from the file name.\<close>

definition filename_title :: "string \<Rightarrow> string" where
  "filename_title p =
     title_case False (replace_char CHR ''_'' CHR '' '' (replace_char CHR ''-'' CHR '' '' (path_stem p)))"

subsection \<open>The indexing service\<close>

text \<open>The number of stored entries with a given identifier.\<close>

definition entries_with :: "'e AppState \<Rightarrow> string \<Rightarrow> nat" where
  "entries_with st i =
     (case collection st of None \<Rightarrow> 0 | Some col \<Rightarrow> length (filter (\<lambda>kv. fst kv = i) col))"

text \<open>The identifiers of a collection are unique.\<close>

definition unique_ids :: "'e AppState \<Rightarrow> bool" where
  "unique_ids st = (case collection st of None \<Rightarrow> True | Some col \<Rightarrow> distinct (map fst col))"

text \<open>The \<^verbatim>\<open>errors\<close> field of the sweep's response as a list, \<^verbatim>\<open>None\<close> being the empty list.\<close>

definition errors_list :: "SweepResponse \<Rightarrow> (string \<times> exn) list" where
  "errors_list r = (case errors r of None \<Rightarrow> [] | Some es \<Rightarrow> es)"

text \<open>The category both endpoints put into the metadata they build.\<close>

definition category_or_default :: "ParsedDocument \<Rightarrow> pyval" where
  "category_or_default doc = (if truthy (category doc) then category doc else PStr ''uncategorized'')"

text \<open>
  The level-1 headings of a body as Markdown has them: the lines that start with one
  \<^verbatim>\<open>#\<close> followed by whitespace or by the end of the line; the text of a heading is the
  rest of its line, trimmed.
\<close>

definition is_level1_heading_line :: "string \<Rightarrow> bool" where
  "is_level1_heading_line l \<longleftrightarrow>
     l \<noteq> [] \<and> hd l = CHR ''#'' \<and> (tl l = [] \<or> is_space (hd (tl l)))"

definition level1_headings :: "string \<Rightarrow> string list" where
  "level1_headings body =
     map (\<lambda>l. strip (tl l)) (filter is_level1_heading_line (split_on nl [] body))"

text \<open>
  Two properties a collection can have. It stores a string value as given. And whether it
  accepts a metadata dictionary does not depend on the time in \<^verbatim>\<open>indexed_at\<close>.
\<close>

definition keeps_strings :: "Env \<Rightarrow> bool" where
  "keeps_strings E \<longleftrightarrow>
     (\<forall>md kept k s. stored_metadata E md = Inr kept \<and> md k = Some (PStr s) \<longrightarrow> kept k = Some (PStr s))"

definition timestamp_blind :: "Env \<Rightarrow> bool" where
  "timestamp_blind E \<longleftrightarrow>
     (\<forall>md s s'. isl (stored_metadata E (md(''indexed_at'' \<mapsto> PStr s))) =
                 isl (stored_metadata E (md(''indexed_at'' \<mapsto> PStr s'))))"

text \<open>The value is a Python string.\<close>

definition is_str :: "pyval \<Rightarrow> bool" where
  "is_str v = (case v of PStr s \<Rightarrow> True | _ \<Rightarrow> False)"

section \<open>The embedding model: similarity\<close>





section \<open>Properties of the string functions\<close>

lemma dropWhile_all_iff: "(\<forall>c\<in>set (dropWhile P xs). P c) \<longleftrightarrow> (\<forall>c\<in>set xs. P c)"
proof
  assume a: "\<forall>c\<in>set (dropWhile P xs). P c"
  have "dropWhile P xs = []"
  proof (rule ccontr)
    assume b: "dropWhile P xs \<noteq> []"
    then have "\<not> P (hd (dropWhile P xs))" by (rule hd_dropWhile)
    moreover from b have "hd (dropWhile P xs) \<in> set (dropWhile P xs)" by (rule hd_in_set)
    ultimately show False using a by blast
  qed
  then show "\<forall>c\<in>set xs. P c" by (simp only: dropWhile_eq_Nil_conv)
next
  assume "\<forall>c\<in>set xs. P c"
  then show "\<forall>c\<in>set (dropWhile P xs). P c" by (meson set_dropWhileD)
qed

lemma strip_eq_Nil_iff: "strip s = [] \<longleftrightarrow> (\<forall>c\<in>set s. is_space c)"
proof -
  have "strip s = [] \<longleftrightarrow> (\<forall>c\<in>set (rev (dropWhile is_space s)). is_space c)"
    by (simp only: strip_def rev_is_Nil_conv dropWhile_eq_Nil_conv)
  also have "\<dots> \<longleftrightarrow> (\<forall>c\<in>set (dropWhile is_space s). is_space c)" by simp
  also have "\<dots> \<longleftrightarrow> (\<forall>c\<in>set s. is_space c)" by (rule dropWhile_all_iff)
  finally show ?thesis .
qed

lemma length_strip_le: "length (strip s) \<le> length s"
proof -
  have "length (strip s) \<le> length (dropWhile is_space s)"
    using length_dropWhile_le [of is_space "rev (dropWhile is_space s)"] by (simp add: strip_def)
  also have "\<dots> \<le> length s" by (rule length_dropWhile_le)
  finally show ?thesis .
qed

lemma len_strip_le: "len (strip s) \<le> len s"
  using length_strip_le [of s] by (simp add: len_def)

lemma stripped_strip_id: "stripped s \<Longrightarrow> strip s = s"
proof -
  assume a: "stripped s"
  then have 1: "dropWhile is_space s = s"
    by (simp add: stripped_def dropWhile_eq_self_iff)
  from a have "\<not> is_space (hd (rev s))" by (simp add: stripped_def hd_rev)
  then have "dropWhile is_space (rev s) = rev s" by (simp add: dropWhile_eq_self_iff)
  with 1 show ?thesis by (simp add: strip_def)
qed

lemma strip_stripped: "strip s \<noteq> [] \<Longrightarrow> stripped (strip s)"
proof -
  assume a: "strip s \<noteq> []"
  let ?t = "dropWhile is_space s"
  let ?u = "dropWhile is_space (rev ?t)"
  from a have u: "?u \<noteq> []" by (simp add: strip_def)
  have t: "?t \<noteq> []"
  proof
    assume e: "?t = []"
    have "?u = dropWhile is_space (rev [])" by (simp only: e)
    then have "?u = []" by (simp only: rev.simps dropWhile.simps)
    with u show False by contradiction
  qed
  from u have "\<not> is_space (hd ?u)" by (rule hd_dropWhile)
  then have l: "\<not> is_space (last (strip s))" using u by (simp add: strip_def last_rev)
  from t have ht: "\<not> is_space (hd ?t)" by (rule hd_dropWhile)
  obtain ws where ws: "rev ?t = ws @ ?u"
    by (metis takeWhile_dropWhile_id)
  then have "?t = rev ?u @ rev ws" by (metis rev_append rev_rev_ident)
  then have "hd ?t = hd (rev ?u)" using u by (metis hd_append2 rev_is_Nil_conv)
  with ht have "\<not> is_space (hd (strip s))" by (simp add: strip_def)
  with l a show ?thesis by (simp add: stripped_def)
qed

lemma strip_idem: "strip (strip s) = strip s"
proof (cases "strip s = []")
  case True
  then have "strip (strip s) = strip []" by (simp only:)
  also have "\<dots> = []" by (simp add: strip_def)
  finally show ?thesis using True by simp
next
  case False
  then show ?thesis by (simp add: strip_stripped stripped_strip_id)
qed

lemma strip_append_stripped: "stripped p \<Longrightarrow> stripped (strip (x @ p))"
proof -
  assume a: "stripped p"
  then have "hd p \<in> set (x @ p)" "\<not> is_space (hd p)" by (auto simp: stripped_def)
  then have "strip (x @ p) \<noteq> []" unfolding strip_eq_Nil_iff by blast
  then show ?thesis by (rule strip_stripped)
qed

lemma split_sentences_stripped: "s \<in> set (split_sentences p) \<Longrightarrow> stripped s"
  by (auto simp: split_sentences_def strip_stripped)

section \<open>The chunker: short documents\<close>

text \<open>
  Claim C6. A document whose content is no longer than \<^verbatim>\<open>chunk_size\<close> is returned as the
  one-element list holding its content: short documents are never split.
\<close>

theorem chunk_short_document:
  "len (content doc) \<le> chunk_size self \<Longrightarrow> chunk_document self doc = [content doc]"
  by (simp add: chunk_document_def chunk_content_def)

theorem chunk_short_document_witness:
  "len (content \<lparr> path = ''a.md'', title = PStr ''A'', content = ''hello'', category = PNone,
                   tags = PList [], metadata = [], chunks = None \<rparr>)
     \<le> chunk_size \<lparr> chunk_size = 500, chunk_overlap = 50 \<rparr> \<and>
   chunk_document \<lparr> chunk_size = 500, chunk_overlap = 50 \<rparr>
     \<lparr> path = ''a.md'', title = PStr ''A'', content = ''hello'', category = PNone,
       tags = PList [], metadata = [], chunks = None \<rparr> = [''hello'']"
proof -
  let ?d = "\<lparr> path = ''a.md'', title = PStr ''A'', content = ''hello'', category = PNone,
              tags = PList [], metadata = [], chunks = None \<rparr>"
  let ?s = "\<lparr> chunk_size = 500, chunk_overlap = 50 \<rparr>"
  have h: "len (content ?d) \<le> chunk_size ?s" by (simp add: len_def)
  from chunk_short_document [OF h] h show ?thesis by simp
qed

section \<open>The chunker: the greedy algorithm\<close>

text \<open>
  Where no paragraph is longer than \<^verbatim>\<open>chunk_size\<close> the code and the algorithm of the
  specification agree.
\<close>

lemma para_step_short_paragraph:
  "len (strip p) \<le> n \<Longrightarrow> para_step n st p = spec_para_step n st p"
  by (cases st) (simp add: para_step_def spec_para_step_def Let_def)

lemma chunk_matches_spec_without_long_paragraph:
  assumes "\<forall>p\<in>set (split_paragraphs body). len (strip p) \<le> n"
  shows "chunk_content n body = spec_chunk n body"
proof -
  have "foldl (para_step n) ([], []) (split_paragraphs body)
      = foldl (spec_para_step n) ([], []) (split_paragraphs body)"
    using assms by (intro foldl_cong refl) (simp add: para_step_short_paragraph)
  then show ?thesis by (simp add: chunk_content_def spec_chunk_def chunk_loop_def)
qed

text \<open>
  Claim C3. The claim is that \<^verbatim>\<open>chunk_document\<close> follows the greedy algorithm of the
  specification: on overflow the buffer is flushed and a new buffer is started. The code
  does not start a new buffer when the overflowing paragraph is itself longer than
  \<^verbatim>\<open>chunk_size\<close>: the sentence loop runs on the buffer that was just flushed. With
  \<^verbatim>\<open>chunk_size = 10\<close> and the content \<^verbatim>\<open>"abc\n\ndddddd. eeeeee."\<close> the code returns the
  chunk \<^verbatim>\<open>"abc"\<close> twice, where the algorithm of the specification returns it once.
\<close>

theorem chunk_document_repeats_flushed_buffer:
  "chunk_document \<lparr> chunk_size = 10, chunk_overlap = 0 \<rparr>
     \<lparr> path = ''a.md'', title = PStr ''A'',
       content = ''abc'' @ [nl, nl] @ ''dddddd. eeeeee.'', category = PNone,
       tags = PList [], metadata = [], chunks = None \<rparr>
     = [''abc'', ''abc'', ''dddddd.'', ''eeeeee.''] \<and>
   spec_chunk 10 (''abc'' @ [nl, nl] @ ''dddddd. eeeeee.'') = [''abc'', ''dddddd.'', ''eeeeee.'']"
  by code_simp

section \<open>The parser: failures\<close>

text \<open>
  A frontmatter block that \<^verbatim>\<open>yaml.safe_load\<close> rejects with \<^verbatim>\<open>YAMLError\<close> leaves the whole
  text as content and the metadata empty; and \<^verbatim>\<open>parse_markdown\<close> returns a document
  whenever the loader raises nothing else and returns mappings or values that are false.
\<close>

lemma parse_markdown_yaml_error:
  assumes "frontmatter_match raw = Some (g, rest)" and "sl g = Inl YAMLError"
  shows "\<exists>d. parse_markdown sl raw p = Inr d \<and> content d = strip raw \<and> metadata d = []"
  using assms by (simp add: parse_markdown_def load_frontmatter_def)

lemma parse_markdown_returns:
  assumes "\<And>g. case sl g of Inl e \<Rightarrow> e = YAMLError | Inr v \<Rightarrow> truthy v \<longrightarrow> (\<exists>kvs. v = PDict kvs)"
  shows "\<exists>d. parse_markdown sl raw p = Inr d"
proof (cases "frontmatter_match raw")
  case None
  then show ?thesis by (simp add: parse_markdown_def load_frontmatter_def)
next
  case (Some m)
  obtain g rest where m: "m = (g, rest)" by (cases m)
  show ?thesis
  proof (cases "sl g")
    case (Inl e)
    with assms [of g] have "e = YAMLError" by simp
    with Some m Inl show ?thesis by (simp add: parse_markdown_def load_frontmatter_def)
  next
    case (Inr v)
    with assms [of g] have "truthy v \<longrightarrow> (\<exists>kvs. v = PDict kvs)" by simp
    with Some m Inr show ?thesis by (auto simp: parse_markdown_def load_frontmatter_def)
  qed
qed

text \<open>
  Claim C1. The claim is that \<^verbatim>\<open>parse_markdown\<close> never raises, also when the frontmatter
  is YAML that is not a mapping. When the frontmatter is the plain scalar \<^verbatim>\<open>hello\<close>,
  \<^verbatim>\<open>yaml.safe_load\<close> returns the string \<^verbatim>\<open>"hello"\<close>, which becomes \<^verbatim>\<open>metadata\<close>, and
  \<^verbatim>\<open>metadata.get("title")\<close> raises \<^verbatim>\<open>AttributeError\<close>: only \<^verbatim>\<open>yaml.YAMLError\<close> is caught.
\<close>

theorem parse_markdown_scalar_frontmatter_raises:
  "parse_markdown (\<lambda>s. if s = ''hello'' then Inr (PStr ''hello'') else Inl YAMLError)
     (''---'' @ [nl] @ ''hello'' @ [nl] @ ''---'' @ [nl]) ''a.md'' = Inl AttributeError"
  by code_simp

section \<open>The chunker: the size bound\<close>

lemma foldl_invariant:
  "I s \<Longrightarrow> (\<And>s x. I s \<Longrightarrow> x \<in> set xs \<Longrightarrow> I (f s x)) \<Longrightarrow> I (foldl f s xs)"
  by (induction xs arbitrary: s) auto

lemma len_append: "len (a @ b) = len a + len b"
  by (simp add: len_def)

lemma size_ok_flush:
  assumes "size_ok n S (fin, cur)"
  shows "\<forall>c\<in>set (flush (fin, cur)). len c \<le> n \<or> c \<in> S"
proof (cases "cur = []")
  case True
  with assms show ?thesis by (simp add: flush_def size_ok_def)
next
  case False
  with assms have "len cur \<le> n \<or> (cur \<in> S \<and> stripped cur)" by (simp add: size_ok_def)
  then have "len (strip cur) \<le> n \<or> strip cur \<in> S"
    using len_strip_le [of cur] stripped_strip_id [of cur] by auto
  with assms False show ?thesis by (auto simp: flush_def size_ok_def)
qed

lemma size_ok_sentence_step:
  assumes inv: "size_ok n S st"
    and s: "len s \<le> n \<or> s \<in> S" "stripped s"
  shows "size_ok n S (sentence_step n st s)"
proof -
  obtain fin cur where st: "st = (fin, cur)" by (cases st)
  show ?thesis
  proof (cases "len cur + len s + 1 > n")
    case True
    then have "sentence_step n st s = (flush (fin, cur), s)"
      by (simp add: sentence_step_def st)
    with size_ok_flush [OF inv [unfolded st]] s show ?thesis
      by (simp add: size_ok_def)
  next
    case False
    have "len (strip (cur @ '' '' @ s)) \<le> len (cur @ '' '' @ s)" by (rule len_strip_le)
    also have "\<dots> = len cur + len s + 1" by (simp add: len_def)
    finally have "len (strip (cur @ '' '' @ s)) \<le> n" using False by simp
    moreover have "sentence_step n st s = (fin, strip (cur @ '' '' @ s))"
      using False by (simp add: sentence_step_def st)
    ultimately show ?thesis using inv by (simp add: size_ok_def st)
  qed
qed

lemma size_ok_para_step:
  assumes inv: "size_ok n S st"
    and p: "\<And>s. len (strip p) > n \<Longrightarrow> s \<in> set (split_sentences (strip p)) \<Longrightarrow> len s \<le> n \<or> s \<in> S"
  shows "size_ok n S (para_step n st p)"
proof -
  obtain fin cur where st: "st = (fin, cur)" by (cases st)
  let ?para = "strip p"
  consider (blank) "?para = []"
    | (long) "?para \<noteq> []" "len cur + len ?para + 2 > n" "len ?para > n"
    | (fresh) "?para \<noteq> []" "len cur + len ?para + 2 > n" "\<not> len ?para > n"
    | (join) "?para \<noteq> []" "\<not> len cur + len ?para + 2 > n"
    by blast
  then show ?thesis
  proof cases
    case blank
    then show ?thesis using inv by (simp add: para_step_def st)
  next
    case long
    have start: "size_ok n S (flush (fin, cur), cur)"
      using size_ok_flush [OF inv [unfolded st]] inv by (simp add: size_ok_def st)
    have "size_ok n S (foldl (sentence_step n) (flush (fin, cur), cur) (split_sentences ?para))"
    proof (rule foldl_invariant [where I = "size_ok n S"])
      show "size_ok n S (flush (fin, cur), cur)" by (rule start)
    next
      fix t s
      assume "size_ok n S t" "s \<in> set (split_sentences ?para)"
      then show "size_ok n S (sentence_step n t s)"
        using p [OF long(3)] split_sentences_stripped by (intro size_ok_sentence_step) auto
    qed
    then show ?thesis using long by (simp add: para_step_def st Let_def)
  next
    case fresh
    then show ?thesis using size_ok_flush [OF inv [unfolded st]]
      by (simp add: para_step_def st Let_def size_ok_def)
  next
    case join
    have "len (strip (cur @ [nl, nl] @ ?para)) \<le> len (cur @ [nl, nl] @ ?para)" by (rule len_strip_le)
    also have "\<dots> = len cur + len ?para + 2" by (simp add: len_def)
    finally have "len (strip (cur @ [nl, nl] @ ?para)) \<le> n" using join by simp
    then show ?thesis using join inv by (simp add: para_step_def st Let_def size_ok_def)
  qed
qed

lemma size_ok_chunk_loop:
  "size_ok n {c. atomic_oversize n body c} (chunk_loop n body)"
  unfolding chunk_loop_def
proof (rule foldl_invariant [where I = "size_ok n {c. atomic_oversize n body c}"])
  show "size_ok n {c. atomic_oversize n body c} ([], [])" by (simp add: size_ok_def)
next
  fix st p
  assume inv: "size_ok n {c. atomic_oversize n body c} st" and p: "p \<in> set (split_paragraphs body)"
  show "size_ok n {c. atomic_oversize n body c} (para_step n st p)"
  proof (rule size_ok_para_step [OF inv])
    fix s
    assume "len (strip p) > n" "s \<in> set (split_sentences (strip p))"
    with p show "len s \<le> n \<or> s \<in> {c. atomic_oversize n body c}"
      by (auto simp: atomic_oversize_def)
  qed
qed

text \<open>
  Claim C5. When the content is longer than \<^verbatim>\<open>chunk_size\<close>, every chunk is at most
  \<^verbatim>\<open>chunk_size\<close> long, except a chunk that is a single sentence (or a paragraph without
  sentence boundary) itself longer than \<^verbatim>\<open>chunk_size\<close>.
\<close>

theorem chunk_size_bound:
  assumes "len (content doc) > chunk_size self"
    and "c \<in> set (chunk_document self doc)"
  shows "len c \<le> chunk_size self \<or> atomic_oversize (chunk_size self) (content doc) c"
proof -
  obtain fin cur where st: "chunk_loop (chunk_size self) (content doc) = (fin, cur)"
    by (cases "chunk_loop (chunk_size self) (content doc)")
  have "size_ok (chunk_size self) {c. atomic_oversize (chunk_size self) (content doc) c} (fin, cur)"
    using size_ok_chunk_loop [of "chunk_size self" "content doc"] by (simp add: st)
  from size_ok_flush [OF this] assms st show ?thesis
    by (simp add: chunk_document_def chunk_content_def)
qed

theorem chunk_size_bound_witness:
  "len (content \<lparr> path = ''a.md'', title = PStr ''A'',
                   content = ''abc'' @ [nl, nl] @ ''dddddddddddd. ee.'', category = PNone,
                   tags = PList [], metadata = [], chunks = None \<rparr>)
     > chunk_size \<lparr> chunk_size = 10, chunk_overlap = 0 \<rparr> \<and>
   ''dddddddddddd.'' \<in> set (chunk_document \<lparr> chunk_size = 10, chunk_overlap = 0 \<rparr>
     \<lparr> path = ''a.md'', title = PStr ''A'',
       content = ''abc'' @ [nl, nl] @ ''dddddddddddd. ee.'', category = PNone,
       tags = PList [], metadata = [], chunks = None \<rparr>) \<and>
   (len ''dddddddddddd.'' \<le> chunk_size \<lparr> chunk_size = 10, chunk_overlap = 0 \<rparr> \<or>
    atomic_oversize (chunk_size \<lparr> chunk_size = 10, chunk_overlap = 0 \<rparr>)
      (content \<lparr> path = ''a.md'', title = PStr ''A'',
                 content = ''abc'' @ [nl, nl] @ ''dddddddddddd. ee.'', category = PNone,
                 tags = PList [], metadata = [], chunks = None \<rparr>) ''dddddddddddd.'')"
proof -
  let ?d = "\<lparr> path = ''a.md'', title = PStr ''A'',
              content = ''abc'' @ [nl, nl] @ ''dddddddddddd. ee.'', category = PNone,
              tags = PList [], metadata = [], chunks = None \<rparr>"
  let ?s = "\<lparr> chunk_size = 10, chunk_overlap = 0 \<rparr>"
  have h1: "len (content ?d) > chunk_size ?s" by code_simp
  have h2: "''dddddddddddd.'' \<in> set (chunk_document ?s ?d)" by code_simp
  from chunk_size_bound [OF h1 h2] h1 h2 show ?thesis by blast
qed

section \<open>The chunker: trimmed chunks, kept text, last flush\<close>

lemma trimmed_flush:
  assumes "trimmed_state (fin, cur)"
  shows "\<forall>c\<in>set (flush (fin, cur)). stripped c"
  using assms stripped_strip_id [of cur]
  by (auto simp: flush_def trimmed_state_def)

lemma trimmed_sentence_step:
  assumes inv: "trimmed_state st" and s: "stripped s"
  shows "trimmed_state (sentence_step n st s)"
proof -
  obtain fin cur where st: "st = (fin, cur)" by (cases st)
  have j: "stripped (strip ((cur @ '' '') @ s))" using s by (rule strip_append_stripped)
  show ?thesis
  proof (cases "len cur + len s + 1 > n")
    case True
    then have "sentence_step n st s = (flush (fin, cur), s)" by (simp add: sentence_step_def st)
    with trimmed_flush [OF inv [unfolded st]] s show ?thesis by (simp add: trimmed_state_def)
  next
    case False
    then have "sentence_step n st s = (fin, strip (cur @ '' '' @ s))"
      by (simp add: sentence_step_def st)
    with j inv show ?thesis by (simp add: trimmed_state_def st)
  qed
qed

lemma trimmed_para_step:
  assumes inv: "trimmed_state st"
  shows "trimmed_state (para_step n st p)"
proof (cases "strip p = []")
  case True
  then show ?thesis using inv by (cases st) (simp add: para_step_def)
next
  case False
  obtain fin cur where st: "st = (fin, cur)" by (cases st)
  from False have para: "stripped (strip p)" by (rule strip_stripped)
  then have j: "stripped (strip ((cur @ [nl, nl]) @ strip p))" by (rule strip_append_stripped)
  have fl: "\<forall>c\<in>set (flush (fin, cur)). stripped c" using inv [unfolded st] by (rule trimmed_flush)
  have start: "trimmed_state (flush (fin, cur), cur)"
    using fl inv by (simp add: trimmed_state_def st)
  have sent: "trimmed_state (foldl (sentence_step n) (flush (fin, cur), cur) (split_sentences (strip p)))"
    by (rule foldl_invariant [where I = trimmed_state, OF start])
       (simp add: trimmed_sentence_step split_sentences_stripped)
  have fresh: "trimmed_state (flush (fin, cur), strip p)"
    using fl para by (simp add: trimmed_state_def)
  have joined: "trimmed_state (fin, strip (cur @ [nl, nl] @ strip p))"
    using j inv by (simp add: trimmed_state_def st)
  show ?thesis using False sent fresh joined by (simp add: para_step_def st Let_def)
qed

lemma trimmed_chunk_loop: "trimmed_state (chunk_loop n body)"
  unfolding chunk_loop_def
  by (rule foldl_invariant [where I = trimmed_state])
     (simp_all add: trimmed_state_def trimmed_para_step [unfolded trimmed_state_def])


lemma squash_Nil: "squash [] = []"
  by (simp add: squash_def)

lemma squash_Cons: "squash (c # s) = (if is_space c then squash s else c # squash s)"
  by (simp add: squash_def)

lemma is_space_nl: "is_space nl"
  by (simp add: is_space_def nl_def)

lemma is_space_blank: "is_space CHR '' ''"
  by (simp add: is_space_def)

lemma squash_append: "squash (a @ b) = squash a @ squash b"
  by (simp add: squash_def)

lemma squash_rev: "squash (rev s) = rev (squash s)"
  by (simp add: squash_def rev_filter)

lemma squash_dropWhile: "squash (dropWhile is_space s) = squash s"
  by (induction s) (simp_all add: squash_Nil squash_Cons)

lemma squash_strip: "squash (strip s) = squash s"
  by (simp add: strip_def squash_rev squash_dropWhile)

lemma squash_blank: "strip s = [] \<Longrightarrow> squash s = []"
  by (simp add: strip_eq_Nil_iff squash_def)

lemma squash_split_blank: "concat (map squash (split_blank acc s)) = squash (rev acc @ s)"
proof (induction acc s rule: split_blank.induct)
  case (3 acc a b cs)
  show ?case
  proof (cases "a = nl \<and> b = nl")
    case True
    with 3(1) show ?thesis by (simp add: squash_append squash_Cons squash_Nil is_space_nl)
  next
    case False
    with 3(2) show ?thesis by (auto simp: squash_append)
  qed
qed (simp_all add: squash_append)

lemma squash_split_paragraphs: "concat (map squash (split_paragraphs body)) = squash body"
  by (simp add: split_paragraphs_def squash_split_blank)

lemma squash_re_split_sentences:
  "concat (map squash (re_split_sentences e acc s)) = squash (rev acc @ s)"
proof (induction e acc s rule: re_split_sentences.induct)
  case (2 e acc c cs)
  show ?case
  proof (cases "e \<and> is_space c")
    case True
    with 2 have "concat (map squash (re_split_sentences e acc (c # cs)))
        = squash (rev acc) @ squash (dropWhile is_space cs)"
      by (simp add: squash_append)
    also have "\<dots> = squash (rev acc @ c # cs)"
      using True by (simp add: squash_dropWhile squash_append squash_Cons)
    finally show ?thesis .
  next
    case False
    then have eq: "re_split_sentences e acc (c # cs)
        = re_split_sentences (is_sentence_end c) (c # acc) cs"
      by auto
    show ?thesis unfolding eq using 2(2) [OF False] by simp
  qed
qed simp

lemma squash_strip_nonblank:
  "concat (map squash (map strip (filter (\<lambda>s. strip s \<noteq> []) xs))) = concat (map squash xs)"
  by (induction xs) (simp_all add: squash_strip squash_blank)

lemma squash_split_sentences: "concat (map squash (split_sentences p)) = squash p"
  by (simp only: split_sentences_def squash_strip_nonblank squash_re_split_sentences) simp

lemma text_of_flush: "concat (map squash (flush st)) = text_of st"
  by (cases st) (simp add: flush_def text_of_def squash_strip squash_Nil)

lemma text_of_sentence_step: "text_of (sentence_step n st s) = text_of st @ squash s"
  by (cases st)
     (simp add: sentence_step_def text_of_def text_of_flush squash_strip squash_append
        squash_Cons squash_Nil is_space_blank)

lemma text_of_sentences:
  "text_of (foldl (sentence_step n) st ss) = text_of st @ concat (map squash ss)"
  by (induction ss arbitrary: st) (simp_all add: text_of_sentence_step)

lemma text_of_para_step: "\<exists>d. text_of (para_step n st p) = text_of st @ d @ squash p"
proof -
  obtain fin cur where st: "st = (fin, cur)" by (cases st)
  let ?para = "strip p"
  have sp: "squash ?para = squash p" by (rule squash_strip)
  consider (blank) "?para = []"
    | (long) "?para \<noteq> []" "len cur + len ?para + 2 > n" "len ?para > n"
    | (fresh) "?para \<noteq> []" "len cur + len ?para + 2 > n" "\<not> len ?para > n"
    | (join) "?para \<noteq> []" "\<not> len cur + len ?para + 2 > n"
    by blast
  then show ?thesis
  proof cases
    case blank
    then have "text_of (para_step n st p) = text_of st @ [] @ squash p"
      by (simp add: para_step_def st squash_blank)
    then show ?thesis ..
  next
    case long
    then have "para_step n st p
        = foldl (sentence_step n) (flush (fin, cur), cur) (split_sentences ?para)"
      by (simp add: para_step_def st Let_def)
    then have "text_of (para_step n st p) = text_of st @ squash cur @ squash p"
      by (simp add: text_of_sentences squash_split_sentences sp)
         (simp add: text_of_def text_of_flush st)
    then show ?thesis ..
  next
    case fresh
    then have "text_of (para_step n st p) = text_of st @ [] @ squash p"
      by (simp add: para_step_def st Let_def) (simp add: text_of_def text_of_flush st sp)
    then show ?thesis ..
  next
    case join
    then have "text_of (para_step n st p) = text_of st @ [] @ squash p"
      by (simp add: para_step_def st Let_def text_of_def squash_strip squash_append sp
            squash_Cons squash_Nil is_space_nl)
    then show ?thesis ..
  qed
qed

lemma text_of_paragraphs:
  "subseq (text_of st @ concat (map squash ps)) (text_of (foldl (para_step n) st ps))"
proof (induction ps arbitrary: st)
  case Nil
  show ?case by simp
next
  case (Cons p ps)
  obtain d where d: "text_of (para_step n st p) = text_of st @ d @ squash p"
    using text_of_para_step by blast
  have "subseq (text_of st @ squash p @ concat (map squash ps))
          (text_of st @ d @ squash p @ concat (map squash ps))"
    by (intro list_emb_append_mono subseq_order.order_refl list_emb_append2)
  also have "subseq \<dots> (text_of (foldl (para_step n) (para_step n st p) ps))"
    using Cons.IH [of "para_step n st p"] by (simp add: d)
  finally show ?case by simp
qed

lemma chunk_content_keeps_text: "subseq (squash body) (concat (map squash (chunk_content n body)))"
proof (cases "len body \<le> n")
  case True
  then show ?thesis by (simp add: chunk_content_def)
next
  case False
  have "subseq (text_of ([], []) @ concat (map squash (split_paragraphs body)))
          (text_of (chunk_loop n body))"
    unfolding chunk_loop_def by (rule text_of_paragraphs)
  then show ?thesis using False
    by (simp add: chunk_content_def text_of_flush squash_split_paragraphs)
       (simp add: text_of_def squash_Nil)
qed


text \<open>
  Claim C4, as stated: every chunk of every document is non-empty after trimming. A
  document with empty content, as \<^verbatim>\<open>parse_markdown\<close> returns for an empty file, is
  short, and \<^verbatim>\<open>chunk_document\<close> returns it whole: the one chunk is the empty string.
\<close>

theorem chunk_document_empty_content_counterexample:
  "\<not> (\<forall>c\<in>set (chunk_document \<lparr> chunk_size = 500, chunk_overlap = 50 \<rparr>
      \<lparr> path = ''a.md'', title = PStr ''A'', content = [], category = PNone,
        tags = PList [], metadata = [], chunks = None \<rparr>). strip c \<noteq> [])"
  by (simp add: chunk_document_def chunk_content_def len_def strip_def)

text \<open>
  Claim C4, amended. When the content is longer than \<^verbatim>\<open>chunk_size\<close> or is not blank, every
  chunk is non-empty after trimming; the text of the content, whitespace apart, is kept
  in its order by the sequence of chunks; and on the long path a non-empty final buffer
  is flushed as the last chunk.
\<close>

theorem chunks_nonblank_text_kept_last_flushed:
  assumes "len (content doc) > chunk_size self \<or> strip (content doc) \<noteq> []"
  shows "(\<forall>c\<in>set (chunk_document self doc). strip c \<noteq> []) \<and>
         subseq (squash (content doc)) (concat (map squash (chunk_document self doc))) \<and>
         (len (content doc) > chunk_size self \<and>
          snd (chunk_loop (chunk_size self) (content doc)) \<noteq> [] \<longrightarrow>
            chunk_document self doc \<noteq> [] \<and>
            last (chunk_document self doc) = snd (chunk_loop (chunk_size self) (content doc)))"
proof (intro conjI)
  let ?n = "chunk_size self" and ?b = "content doc"
  obtain fin cur where st: "chunk_loop ?n ?b = (fin, cur)" by (cases "chunk_loop ?n ?b")
  have inv: "trimmed_state (fin, cur)" using trimmed_chunk_loop [of ?n ?b] by (simp add: st)
  show "\<forall>c\<in>set (chunk_document self doc). strip c \<noteq> []"
  proof (cases "len ?b \<le> ?n")
    case True
    with assms show ?thesis by (simp add: chunk_document_def chunk_content_def)
  next
    case False
    have "\<forall>c\<in>set (flush (fin, cur)). strip c \<noteq> []"
      using trimmed_flush [OF inv] stripped_strip_id by (auto simp: stripped_def)
    with False show ?thesis by (simp add: chunk_document_def chunk_content_def st)
  qed
  show "subseq (squash ?b) (concat (map squash (chunk_document self doc)))"
    unfolding chunk_document_def by (rule chunk_content_keeps_text)
  show "len ?b > ?n \<and> snd (chunk_loop ?n ?b) \<noteq> [] \<longrightarrow>
          chunk_document self doc \<noteq> [] \<and> last (chunk_document self doc) = snd (chunk_loop ?n ?b)"
  proof
    assume a: "len ?b > ?n \<and> snd (chunk_loop ?n ?b) \<noteq> []"
    then have c: "cur \<noteq> []" by (simp add: st)
    with inv have "strip cur = cur" by (simp add: trimmed_state_def stripped_strip_id)
    with a c show "chunk_document self doc \<noteq> [] \<and> last (chunk_document self doc) = snd (chunk_loop ?n ?b)"
      by (simp add: chunk_document_def chunk_content_def st flush_def)
  qed
qed

theorem chunks_nonblank_text_kept_last_flushed_witness:
  "len (content \<lparr> path = ''a.md'', title = PStr ''A'',
                   content = ''abc'' @ [nl, nl] @ ''def ghi'', category = PNone,
                   tags = PList [], metadata = [], chunks = None \<rparr>)
     > chunk_size \<lparr> chunk_size = 8, chunk_overlap = 0 \<rparr> \<and>
   chunk_document \<lparr> chunk_size = 8, chunk_overlap = 0 \<rparr>
     \<lparr> path = ''a.md'', title = PStr ''A'',
       content = ''abc'' @ [nl, nl] @ ''def ghi'', category = PNone,
       tags = PList [], metadata = [], chunks = None \<rparr> = [''abc'', ''def ghi''] \<and>
   list_all (\<lambda>c. strip c \<noteq> []) (chunk_document \<lparr> chunk_size = 8, chunk_overlap = 0 \<rparr>
     \<lparr> path = ''a.md'', title = PStr ''A'',
       content = ''abc'' @ [nl, nl] @ ''def ghi'', category = PNone,
       tags = PList [], metadata = [], chunks = None \<rparr>) \<and>
   subseq ''abcdefghi'' (concat (map squash (chunk_document \<lparr> chunk_size = 8, chunk_overlap = 0 \<rparr>
     \<lparr> path = ''a.md'', title = PStr ''A'',
       content = ''abc'' @ [nl, nl] @ ''def ghi'', category = PNone,
       tags = PList [], metadata = [], chunks = None \<rparr>))) \<and>
   last (chunk_document \<lparr> chunk_size = 8, chunk_overlap = 0 \<rparr>
     \<lparr> path = ''a.md'', title = PStr ''A'',
       content = ''abc'' @ [nl, nl] @ ''def ghi'', category = PNone,
       tags = PList [], metadata = [], chunks = None \<rparr>) = ''def ghi''"
proof -
  let ?d = "\<lparr> path = ''a.md'', title = PStr ''A'',
              content = ''abc'' @ [nl, nl] @ ''def ghi'', category = PNone,
              tags = PList [], metadata = [], chunks = None \<rparr>"
  let ?s = "\<lparr> chunk_size = 8, chunk_overlap = 0 \<rparr>"
  have h: "len (content ?d) > chunk_size ?s" by code_simp
  have v: "chunk_document ?s ?d = [''abc'', ''def ghi'']" by code_simp
  have b: "snd (chunk_loop (chunk_size ?s) (content ?d)) = ''def ghi''" by code_simp
  have q: "squash (content ?d) = ''abcdefghi''" by code_simp
  have t: "(\<forall>c\<in>set (chunk_document ?s ?d). strip c \<noteq> []) \<and>
         subseq (squash (content ?d)) (concat (map squash (chunk_document ?s ?d))) \<and>
         (len (content ?d) > chunk_size ?s \<and>
          snd (chunk_loop (chunk_size ?s) (content ?d)) \<noteq> [] \<longrightarrow>
            chunk_document ?s ?d \<noteq> [] \<and>
            last (chunk_document ?s ?d) = snd (chunk_loop (chunk_size ?s) (content ?d)))"
    using h by (intro chunks_nonblank_text_kept_last_flushed) simp
  from t have t1: "\<forall>c\<in>set (chunk_document ?s ?d). strip c \<noteq> []"
    by (rule conjunct1)
  from t have t2: "subseq (squash (content ?d)) (concat (map squash (chunk_document ?s ?d)))"
    by (rule conjunct1 [OF conjunct2])
  from t have t3: "len (content ?d) > chunk_size ?s \<and>
          snd (chunk_loop (chunk_size ?s) (content ?d)) \<noteq> [] \<longrightarrow>
            chunk_document ?s ?d \<noteq> [] \<and>
            last (chunk_document ?s ?d) = snd (chunk_loop (chunk_size ?s) (content ?d))"
    by (rule conjunct2 [OF conjunct2])
  from t1 have 1: "list_all (\<lambda>c. strip c \<noteq> []) (chunk_document ?s ?d)"
    unfolding list_all_iff .
  from t2 have 2: "subseq ''abcdefghi'' (concat (map squash (chunk_document ?s ?d)))"
    unfolding q .
  have "snd (chunk_loop (chunk_size ?s) (content ?d)) \<noteq> []"
    unfolding b by simp
  with t3 h have "last (chunk_document ?s ?d) = snd (chunk_loop (chunk_size ?s) (content ?d))"
    by blast
  then have 3: "last (chunk_document ?s ?d) = ''def ghi''"
    unfolding b .
  from h v 1 2 3 show ?thesis by (intro conjI)
qed

section \<open>The parser: title and category\<close>

lemma parse_markdown_fields:
  assumes "parse_markdown sl raw p = Inr doc"
  shows "title doc = resolve_title (metadata doc) (frontmatter_body sl raw) p"
    and "category doc = resolve_category (metadata doc) p"
    and "content doc = strip (frontmatter_body sl raw)"
  using assms
  by (auto simp: parse_markdown_def frontmatter_body_def split: sum.splits pyval.splits prod.splits)

lemma parse_markdown_no_frontmatter:
  assumes "frontmatter_match raw = None"
  shows "parse_markdown sl raw p =
     Inr \<lparr> path = p, title = resolve_title [] raw p, content = strip raw,
           category = resolve_category [] p, tags = resolve_tags [], metadata = [],
           chunks = None \<rparr>"
  using assms by (simp add: parse_markdown_def load_frontmatter_def)

lemma parse_no_frontmatter_example:
  "parse_markdown sl ''no frontmatter here'' ''a/b.md'' =
     Inr \<lparr> path = ''a/b.md'', title = PStr ''B'', content = ''no frontmatter here'',
           category = PStr ''a'', tags = PList [], metadata = [], chunks = None \<rparr>"
proof -
  have fm: "frontmatter_match ''no frontmatter here'' = None" by code_simp
  have hs: "heading_search True ''no frontmatter here'' = None" by code_simp
  have ft: "title_case False
      (replace_char CHR ''_'' CHR '' '' (replace_char CHR ''-'' CHR '' '' (path_stem ''a/b.md''))) = ''B''"
    by code_simp
  have pp: "path_parts ''a/b.md'' = [''a'', ''b.md'']" by code_simp
  have sp: "strip ''no frontmatter here'' = ''no frontmatter here''" by code_simp
  show ?thesis
    by (simp add: parse_markdown_def load_frontmatter_def fm resolve_title_def
        resolve_category_def resolve_tags_def dict_get_def hs ft pp sp)
qed

text \<open>
  The order of resolution, where \<open>heading_search\<close> stands for the heading: a frontmatter
  field counts when its value is true in Python's sense.
\<close>

lemma parse_resolution_order:
  assumes a: "parse_markdown sl raw p = Inr doc"
  shows "title doc =
        (if truthy (dict_get (metadata doc) ''title'' PNone)
         then dict_get (metadata doc) ''title'' PNone
         else (case heading_search True (frontmatter_body sl raw) of
                 Some g \<Rightarrow> PStr (strip g)
               | None \<Rightarrow> PStr (filename_title p)))"
    and "category doc =
        (if truthy (dict_get (metadata doc) ''category'' PNone)
         then dict_get (metadata doc) ''category'' PNone
         else if length (path_parts p) > 1 then PStr (hd (path_parts p))
         else dict_get (metadata doc) ''category'' PNone)"
proof -
  show "title doc =
        (if truthy (dict_get (metadata doc) ''title'' PNone)
         then dict_get (metadata doc) ''title'' PNone
         else (case heading_search True (frontmatter_body sl raw) of
                 Some g \<Rightarrow> PStr (strip g)
               | None \<Rightarrow> PStr (filename_title p)))"
    by (simp add: parse_markdown_fields(1) [OF a] resolve_title_def filename_title_def Let_def
          split: option.splits)
  show "category doc =
        (if truthy (dict_get (metadata doc) ''category'' PNone)
         then dict_get (metadata doc) ''category'' PNone
         else if length (path_parts p) > 1 then PStr (hd (path_parts p))
         else dict_get (metadata doc) ''category'' PNone)"
    by (cases "path_parts p")
       (simp_all add: parse_markdown_fields(2) [OF a] resolve_category_def Let_def)
qed

text \<open>
  Examples of each source of the title and of the category: frontmatter fields before
  heading and path; a heading line before the file name; the file name with hyphen and
  underscore turned into spaces and title-cased; the first path segment; and the example
  of the specification.
\<close>

lemma parse_resolution_examples:
  "map_sum id (\<lambda>d. (title d, category d))
     (parse_markdown (\<lambda>s. Inr (PDict [(PStr ''title'', PStr ''T''), (PStr ''category'', PStr ''C'')]))
        (''---'' @ [nl] @ ''title: T'' @ [nl] @ ''category: C'' @ [nl] @ ''---'' @ [nl]
           @ ''# Head'' @ [nl] @ ''x'')
        ''notes/my-note.md'')
     = Inr (PStr ''T'', PStr ''C'')"
  "map_sum id (\<lambda>d. (title d, category d))
     (parse_markdown (\<lambda>s. Inl YAMLError) (''intro'' @ [nl] @ ''# Head line '' @ [nl] @ ''x'')
        ''notes/my-note.md'')
     = Inr (PStr ''Head line'', PStr ''notes'')"
  "map_sum id (\<lambda>d. (title d, category d))
     (parse_markdown (\<lambda>s. Inl YAMLError) ''text without heading'' ''my-note_one.md'')
     = Inr (PStr ''My Note One'', PNone)"
  "map_sum id (\<lambda>d. (title d, category d))
     (parse_markdown (\<lambda>s. Inl YAMLError) ''no frontmatter here'' ''a/b.md'')
     = Inr (PStr ''B'', PStr ''a'')"
  by code_simp+

text \<open>
  Claim C9. The claim is that the title is the frontmatter \<^verbatim>\<open>title\<close>, else the first level-1
  heading of the body, else the name derived from the file name. In \<^verbatim>\<open>HEADING_PATTERN\<close> the
  whitespace after \<^verbatim>\<open>#\<close> is \<^verbatim>\<open>\s+\<close>, which also matches line breaks: after a line that is
  only \<^verbatim>\<open>#\<close> the pattern takes the next line that is not blank, whatever it is. For the
  body \<^verbatim>\<open>"#\n\nfoo bar\nbaz"\<close> at \<^verbatim>\<open>"my-note.md"\<close> the code returns the title \<^verbatim>\<open>"foo bar"\<close>,
  which is the text of no level-1 heading: the one level-1 heading of the body is empty,
  and the name derived from the file name is \<^verbatim>\<open>"My Note"\<close>.
\<close>

theorem heading_pattern_crosses_lines:
  "map_sum id title
     (parse_markdown sl (''#'' @ [nl, nl] @ ''foo bar'' @ [nl] @ ''baz'') ''my-note.md'')
     = Inr (PStr ''foo bar'') \<and>
   level1_headings (''#'' @ [nl, nl] @ ''foo bar'' @ [nl] @ ''baz'') = [[]] \<and>
   filename_title ''my-note.md'' = ''My Note''"
proof -
  let ?raw = "''#'' @ [nl, nl] @ ''foo bar'' @ [nl] @ ''baz''"
  have fm: "frontmatter_match ?raw = None" by code_simp
  have rt: "resolve_title [] ?raw ''my-note.md'' = PStr ''foo bar''" by code_simp
  have 1: "map_sum id title (parse_markdown sl ?raw ''my-note.md'') = Inr (PStr ''foo bar'')"
    by (simp only: parse_markdown_no_frontmatter [OF fm] rt sum.simps
          map_sum.simps ParsedDocument.select_convs)
  have 2: "level1_headings ?raw = [[]]" by code_simp
  have 3: "filename_title ''my-note.md'' = ''My Note''" by code_simp
  from 1 2 3 show ?thesis by (intro conjI)
qed

section \<open>The indexing service: identifiers\<close>

lemma index_entry_id: "index_entry E st p raw extra now = Inr (i, e, d) \<Longrightarrow> i = md5_hexdigest E p"
  by (auto simp: index_entry_def split: sum.splits option.splits)

lemma index_entry_parse:
  "index_entry E st p raw extra now = Inr (i, e, d) \<Longrightarrow>
     parse_markdown (yaml_safe_load E) raw p = Inr d"
  by (auto simp: index_entry_def split: sum.splits option.splits)

lemma index_entry_given:
  assumes "index_entry E st p raw extra now = Inr (i, e, d)"
  shows "\<exists>md. upsert_metadata p d extra now = Inr md \<and>
              stored_metadata E md = Inr (entry_metadata e) \<and> document e = content d"
  using assms by (auto simp: index_entry_def split: sum.splits option.splits)

lemma upsert_metadata_category:
  assumes "upsert_metadata p d extra now = Inr md"
  shows "md ''category'' =
     (case extra ''category'' of Some v \<Rightarrow> Some v | None \<Rightarrow> Some (category_or_default d))"
  using assms
  by (auto simp: upsert_metadata_def add_tags_def build_metadata_def category_or_default_def
        map_add_def split: sum.splits option.splits if_splits)

lemma upsert_metadata_indexed_at:
  assumes "upsert_metadata p d extra now = Inr md"
  shows "md ''indexed_at'' =
     (case extra ''indexed_at'' of Some v \<Rightarrow> Some v | None \<Rightarrow> Some (PStr now))"
  using assms
  by (auto simp: upsert_metadata_def add_tags_def build_metadata_def
        map_add_def split: sum.splits option.splits if_splits)

lemma upsert_metadata_time:
  assumes "upsert_metadata p d extra now = Inr md"
  shows "upsert_metadata p d extra now' =
     Inr (if extra ''indexed_at'' = None then md(''indexed_at'' \<mapsto> PStr now') else md)"
proof -
  have b: "build_metadata p d now' ++ extra =
      (if extra ''indexed_at'' = None then (build_metadata p d now ++ extra)(''indexed_at'' \<mapsto> PStr now')
       else build_metadata p d now ++ extra)"
    by (rule ext) (auto simp: build_metadata_def map_add_def split: option.splits)
  show ?thesis
  proof (cases "extra ''indexed_at'' = None")
    case True
    with assms b show ?thesis
      by (auto simp: upsert_metadata_def add_tags_def fun_upd_twist split: sum.splits if_splits)
  next
    case False
    then obtain v where v: "extra ''indexed_at'' = Some v" by blast
    from b assms show ?thesis unfolding upsert_metadata_def v by simp
  qed
qed

lemma index_entry_again:
  assumes ie: "index_entry E st p raw extra now = Inr (i, e, d)"
    and emb: "embedder st' = embedder st"
    and tb: "timestamp_blind E"
  shows "\<exists>e'. index_entry E st' p raw extra now' = Inr (i, e', d)"
proof -
  from index_entry_given [OF ie] obtain md where
    md: "upsert_metadata p d extra now = Inr md" and kept: "stored_metadata E md = Inr (entry_metadata e)"
    by blast
  let ?md' = "if extra ''indexed_at'' = None then md(''indexed_at'' \<mapsto> PStr now') else md"
  have md': "upsert_metadata p d extra now' = Inr ?md'" using md by (rule upsert_metadata_time)
  have "\<not> isl (stored_metadata E ?md')"
  proof (cases "extra ''indexed_at'' = None")
    case True
    with upsert_metadata_indexed_at [OF md] have "md ''indexed_at'' = Some (PStr now)" by simp
    then have "md = md(''indexed_at'' \<mapsto> PStr now)" by (simp add: map_upd_triv)
    with kept have "\<not> isl (stored_metadata E (md(''indexed_at'' \<mapsto> PStr now)))" by simp
    with tb have "\<not> isl (stored_metadata E (md(''indexed_at'' \<mapsto> PStr now')))"
      unfolding timestamp_blind_def by blast
    with True show ?thesis by simp
  next
    case False
    then obtain v where v: "extra ''indexed_at'' = Some v" by blast
    from kept show ?thesis unfolding v by simp
  qed
  then obtain kept' where kept': "stored_metadata E ?md' = Inr kept'"
    by (cases "stored_metadata E ?md'") auto
  from ie obtain enc emb_v where
    p: "parse_markdown (yaml_safe_load E) raw p = Inr d" and
    en: "embedder st = Some enc" "enc (content d) = Inr emb_v" and i: "i = md5_hexdigest E p"
    by (auto simp: index_entry_def split: sum.splits option.splits)
  have "index_entry E st' p raw extra now' =
      Inr (i, \<lparr> embedding = emb_v, entry_metadata = kept', document = content d \<rparr>, d)"
    unfolding index_entry_def by (simp add: p emb en md' kept' i)
  then show ?thesis by blast
qed

lemma length_filter_key_one:
  "distinct (map fst al) \<Longrightarrow> k \<in> fst ` set al \<Longrightarrow> length (filter (\<lambda>kv. fst kv = k) al) = 1"
proof (induction al)
  case Nil
  then show ?case by simp
next
  case (Cons a al)
  show ?case
  proof (cases "fst a = k")
    case True
    with Cons.prems have "k \<notin> fst ` set al" by simp
    then have "filter (\<lambda>kv. fst kv = k) al = []"
      unfolding filter_empty_conv by force
    with True show ?thesis by simp
  next
    case False
    with Cons show ?thesis by auto
  qed
qed

lemma keys_update_present:
  "k \<in> fst ` set al \<Longrightarrow> map fst (AList.update k v al) = map fst al"
  by (simp add: update_keys)

lemma length_update_present:
  assumes "k \<in> fst ` set al"
  shows "length (AList.update k v al) = length al"
proof -
  have "length (map fst (AList.update k v al)) = length (map fst al)"
    using assms by (simp only: update_keys set_map if_True)
  then show ?thesis by (simp only: length_map)
qed

lemma update_one_entry:
  "distinct (map fst al) \<Longrightarrow> length (filter (\<lambda>kv. fst kv = k) (AList.update k v al)) = 1"
proof -
  assume d: "distinct (map fst al)"
  have "k \<in> set (map fst (AList.update k v al))" by (simp add: update_keys)
  then have "k \<in> fst ` set (AList.update k v al)" by (simp only: set_map)
  with distinct_update [OF d] show ?thesis by (rule length_filter_key_one)
qed

lemma drop_none_timestamp_blind:
  "stored_metadata E = drop_none \<Longrightarrow> timestamp_blind E"
  by (simp add: timestamp_blind_def drop_none_def)

lemma drop_none_keeps_strings:
  "stored_metadata E = drop_none \<Longrightarrow> keeps_strings E"
  by (auto simp: keeps_strings_def drop_none_def)

text \<open>
  Claim C2. The identifier is the hash of the path string alone, the same in
  \<^verbatim>\<open>index_document\<close>, in the sweep and in \<^verbatim>\<open>delete_document\<close>. Indexing the same path
  and content again (with a collection whose acceptance does not depend on the time)
  succeeds with the same identifier and overwrites: the count and the identifiers of
  the collection are unchanged, the entry under the identifier is the one the second call
  built, with its own \<^verbatim>\<open>indexed_at\<close>, every other entry is untouched, \<^verbatim>\<open>last_indexed\<close> is
  the time of the second call, and a collection with unique identifiers has exactly one
  entry under the identifier. Two paths get different identifiers unless their hashes
  collide.
\<close>

theorem document_id_is_hash_of_path:
  assumes first: "index_document E st rq ta tb = Inr (st1, r1)"
    and blind: "timestamp_blind E"
  shows "doc_id r1 = md5_hexdigest E (request_path rq) \<and>
         (\<exists>st2 r2 col1 col2 e2 d.
            index_document E st1 rq tc td = Inr (st2, r2) \<and>
            doc_id r2 = doc_id r1 \<and> count st2 = count st1 \<and>
            collection st1 = Some col1 \<and> collection st2 = Some col2 \<and>
            index_entry E st1 (request_path rq) (request_content rq) (extra_metadata rq) tc
              = Inr (doc_id r1, e2, d) \<and>
            map_of col2 (doc_id r1) = Some e2 \<and>
            (\<forall>k. k \<noteq> doc_id r1 \<longrightarrow> map_of col2 k = map_of col1 k) \<and>
            map fst col2 = map fst col1 \<and>
            last_indexed st2 = Some td \<and>
            (keeps_strings E \<and> extra_metadata rq ''indexed_at'' = None \<longrightarrow>
               entry_metadata e2 ''indexed_at'' = Some (PStr tc)) \<and>
            (unique_ids st \<longrightarrow>
               entries_with st1 (doc_id r1) = 1 \<and> entries_with st2 (doc_id r1) = 1)) \<and>
         (\<forall>i e d. file_result E sta V stamp (k, request_path rq) = Inr (i, e, d) \<longrightarrow> i = doc_id r1) \<and>
         (\<forall>stb q i. delete_document E sta (request_path rq) = Inr (stb, q, i) \<longrightarrow> i = doc_id r1) \<and>
         (\<forall>rq' stb r'. index_document E sta rq' te tf = Inr (stb, r') \<longrightarrow>
            md5_hexdigest E (request_path rq') \<noteq> md5_hexdigest E (request_path rq) \<longrightarrow>
            doc_id r' \<noteq> doc_id r1)"
proof -
  let ?p = "request_path rq" and ?raw = "request_content rq" and ?x = "extra_metadata rq"
  from first obtain col ix i e d where
    col: "collection st = Some col" and ix: "indexer st = Some ix" and
    ie: "index_entry E st ?p ?raw ?x ta = Inr (i, e, d)" and
    st1: "st1 = st\<lparr> collection := Some (AList.update i e col), last_indexed := Some tb \<rparr>" and
    r1: "doc_id r1 = i"
    by (auto simp: index_document_def split: option.splits sum.splits prod.splits)
  have i: "i = md5_hexdigest E ?p" using ie by (rule index_entry_id)
  have emb: "embedder st1 = embedder st" by (simp add: st1)
  from index_entry_again [OF ie emb blind] obtain e2 where
    ie2: "index_entry E st1 ?p ?raw ?x tc = Inr (i, e2, d)"
    by blast
  let ?col1 = "AList.update i e col"
  let ?col2 = "AList.update i e2 ?col1"
  let ?st2 = "st1\<lparr> collection := Some ?col2, last_indexed := Some td \<rparr>"
  let ?r2 = "\<lparr> index_success = True, response_path = ?p, doc_id = i, response_title = title d \<rparr>"
  have second: "index_document E st1 rq tc td = Inr (?st2, ?r2)"
    using ie2 by (simp add: index_document_def st1 ix)
  have present: "i \<in> fst ` set ?col1" by (simp add: dom_update)
  then have cnt: "length ?col2 = length ?col1" by (rule length_update_present)
  have same_count: "count ?st2 = count st1" using cnt by (simp add: count_def st1)
  have c1: "collection st1 = Some ?col1" by (simp add: st1)
  have c2: "collection ?st2 = Some ?col2" by simp
  have look: "map_of ?col2 i = Some e2" by (simp add: update_conv')
  have others: "\<forall>k. k \<noteq> i \<longrightarrow> map_of ?col2 k = map_of ?col1 k" by (simp add: update_conv')
  have keys: "map fst ?col2 = map fst ?col1"
    using present by (rule keys_update_present)
  have li: "last_indexed ?st2 = Some td" by simp
  have at: "keeps_strings E \<and> ?x ''indexed_at'' = None \<longrightarrow>
      entry_metadata e2 ''indexed_at'' = Some (PStr tc)"
  proof
    assume a: "keeps_strings E \<and> ?x ''indexed_at'' = None"
    from index_entry_given [OF ie2] obtain md where
      md: "upsert_metadata ?p d ?x tc = Inr md" and
      kept: "stored_metadata E md = Inr (entry_metadata e2)"
      by blast
    from upsert_metadata_indexed_at [OF md] a have "md ''indexed_at'' = Some (PStr tc)" by simp
    with a kept show "entry_metadata e2 ''indexed_at'' = Some (PStr tc)"
      unfolding keeps_strings_def by blast
  qed
  have one: "unique_ids st \<longrightarrow> entries_with st1 i = 1 \<and> entries_with ?st2 i = 1"
  proof
    assume "unique_ids st"
    then have dc: "distinct (map fst col)" by (simp add: unique_ids_def col)
    then have "distinct (map fst ?col1)" by (rule distinct_update)
    with dc show "entries_with st1 i = 1 \<and> entries_with ?st2 i = 1"
      by (simp add: entries_with_def st1 update_one_entry)
  qed
  have sweep: "\<forall>i' e d. file_result E sta V stamp (k, ?p) = Inr (i', e, d) \<longrightarrow> i' = doc_id r1"
    by (auto simp: file_result_def r1 i split: sum.splits dest: index_entry_id)
  have del: "\<forall>stb q i'. delete_document E sta ?p = Inr (stb, q, i') \<longrightarrow> i' = doc_id r1"
    by (auto simp: delete_document_def r1 i split: option.splits)
  have other: "\<forall>rq' stb r'. index_document E sta rq' te tf = Inr (stb, r') \<longrightarrow>
            md5_hexdigest E (request_path rq') \<noteq> md5_hexdigest E ?p \<longrightarrow>
            doc_id r' \<noteq> doc_id r1"
    by (auto simp: index_document_def r1 i split: option.splits sum.splits prod.splits
          dest: index_entry_id)
  have "index_document E st1 rq tc td = Inr (?st2, ?r2) \<and>
            doc_id ?r2 = doc_id r1 \<and> count ?st2 = count st1 \<and>
            collection st1 = Some ?col1 \<and> collection ?st2 = Some ?col2 \<and>
            index_entry E st1 ?p ?raw ?x tc = Inr (doc_id r1, e2, d) \<and>
            map_of ?col2 (doc_id r1) = Some e2 \<and>
            (\<forall>k. k \<noteq> doc_id r1 \<longrightarrow> map_of ?col2 k = map_of ?col1 k) \<and>
            map fst ?col2 = map fst ?col1 \<and>
            last_indexed ?st2 = Some td \<and>
            (keeps_strings E \<and> ?x ''indexed_at'' = None \<longrightarrow>
               entry_metadata e2 ''indexed_at'' = Some (PStr tc)) \<and>
            (unique_ids st \<longrightarrow>
               entries_with st1 (doc_id r1) = 1 \<and> entries_with ?st2 (doc_id r1) = 1)"
    using second same_count c1 c2 ie2 look others keys li at one unfolding r1 by simp
  then have "\<exists>st2 r2 col1 col2 e2 d.
            index_document E st1 rq tc td = Inr (st2, r2) \<and>
            doc_id r2 = doc_id r1 \<and> count st2 = count st1 \<and>
            collection st1 = Some col1 \<and> collection st2 = Some col2 \<and>
            index_entry E st1 ?p ?raw ?x tc = Inr (doc_id r1, e2, d) \<and>
            map_of col2 (doc_id r1) = Some e2 \<and>
            (\<forall>k. k \<noteq> doc_id r1 \<longrightarrow> map_of col2 k = map_of col1 k) \<and>
            map fst col2 = map fst col1 \<and>
            last_indexed st2 = Some td \<and>
            (keeps_strings E \<and> ?x ''indexed_at'' = None \<longrightarrow>
               entry_metadata e2 ''indexed_at'' = Some (PStr tc)) \<and>
            (unique_ids st \<longrightarrow>
               entries_with st1 (doc_id r1) = 1 \<and> entries_with st2 (doc_id r1) = 1)"
    by blast
  with r1 i sweep del other show ?thesis by blast
qed


theorem document_id_is_hash_of_path_witness:
  "\<exists>st1 r1.
     index_document
       \<lparr> yaml_safe_load = (\<lambda>s. Inl YAMLError), md5_hexdigest = (\<lambda>s. ''md5:'' @ s),
         stored_metadata = drop_none \<rparr>
       \<lparr> embedder = Some (\<lambda>s. Inr (length s)), collection = Some [],
         indexer = Some \<lparr> chunk_size = 500, chunk_overlap = 50 \<rparr>, last_indexed = None \<rparr>
       \<lparr> request_path = ''a/b.md'', request_content = ''no frontmatter here'',
         request_metadata = None \<rparr> ''t1'' ''t2'' = Inr (st1, r1) \<and>
     doc_id r1 = ''md5:a/b.md'' \<and> count st1 = 1 \<and>
     (\<exists>st2 r2 col2 e2.
        index_document
          \<lparr> yaml_safe_load = (\<lambda>s. Inl YAMLError), md5_hexdigest = (\<lambda>s. ''md5:'' @ s),
            stored_metadata = drop_none \<rparr>
          st1 \<lparr> request_path = ''a/b.md'', request_content = ''no frontmatter here'',
                request_metadata = None \<rparr> ''t3'' ''t4'' = Inr (st2, r2) \<and>
        doc_id r2 = ''md5:a/b.md'' \<and> count st2 = 1 \<and> entries_with st2 ''md5:a/b.md'' = 1 \<and>
        collection st2 = Some col2 \<and> map_of col2 ''md5:a/b.md'' = Some e2 \<and>
        entry_metadata e2 ''indexed_at'' = Some (PStr ''t3'') \<and> last_indexed st2 = Some ''t4'')"
proof -
  let ?E = "\<lparr> yaml_safe_load = (\<lambda>s. Inl YAMLError), md5_hexdigest = (\<lambda>s. ''md5:'' @ s),
              stored_metadata = drop_none \<rparr>"
  let ?st = "\<lparr> embedder = Some (\<lambda>s. Inr (length s)), collection = Some [],
         indexer = Some \<lparr> chunk_size = 500, chunk_overlap = 50 \<rparr>, last_indexed = None \<rparr>
         :: nat AppState"
  let ?rq = "\<lparr> request_path = ''a/b.md'', request_content = ''no frontmatter here'',
         request_metadata = None \<rparr>"
  have "\<exists>x. index_entry ?E ?st ''a/b.md'' ''no frontmatter here'' Map.empty ''t1'' = Inr x"
    by (simp add: index_entry_def parse_no_frontmatter_example upsert_metadata_def add_tags_def
          drop_none_def)
  then obtain i e d where
    ie: "index_entry ?E ?st ''a/b.md'' ''no frontmatter here'' Map.empty ''t1'' = Inr (i, e, d)"
    by (metis prod_cases3)
  let ?st1 = "?st\<lparr> collection := Some (AList.update i e []), last_indexed := Some ''t2'' \<rparr>"
  let ?r1 = "\<lparr> index_success = True, response_path = ''a/b.md'', doc_id = i,
               response_title = title d \<rparr>"
  have first: "index_document ?E ?st ?rq ''t1'' ''t2'' = Inr (?st1, ?r1)"
    using ie by (simp add: index_document_def extra_metadata_def)
  have blind: "timestamp_blind ?E" by (rule drop_none_timestamp_blind) simp
  have ks: "keeps_strings ?E" by (rule drop_none_keeps_strings) simp
  have u: "unique_ids ?st" by (simp add: unique_ids_def)
  have x: "extra_metadata ?rq ''indexed_at'' = None" by (simp add: extra_metadata_def)
  have c1: "count ?st1 = 1" by (simp add: count_def)
  note T = document_id_is_hash_of_path [OF first blind, where tc = "''t3''" and td = "''t4''"]
  have A: "doc_id ?r1 = md5_hexdigest ?E (request_path ?rq)"
    by (rule conjunct1 [OF T])
  from conjunct1 [OF conjunct2 [OF T]] obtain st2 r2 col1 col2 e2 d2 where
    B: "index_document ?E ?st1 ?rq ''t3'' ''t4'' = Inr (st2, r2)"
      "doc_id r2 = doc_id ?r1" "count st2 = count ?st1"
      "collection st2 = Some col2" "map_of col2 (doc_id ?r1) = Some e2"
      "last_indexed st2 = Some ''t4''"
      "keeps_strings ?E \<and> extra_metadata ?rq ''indexed_at'' = None \<longrightarrow>
         entry_metadata e2 ''indexed_at'' = Some (PStr ''t3'')"
      "unique_ids ?st \<longrightarrow>
         entries_with ?st1 (doc_id ?r1) = 1 \<and> entries_with st2 (doc_id ?r1) = 1"
    by blast
  from A have d1: "doc_id ?r1 = ''md5:a/b.md''" by simp
  from B(2) d1 have d2: "doc_id r2 = ''md5:a/b.md''" by simp
  from B(3) c1 have c2: "count st2 = 1" by simp
  from B(8) u d1 have e2: "entries_with st2 ''md5:a/b.md'' = 1" by simp
  from B(5) d1 have m2: "map_of col2 ''md5:a/b.md'' = Some e2" by simp
  from B(7) ks x have t3: "entry_metadata e2 ''indexed_at'' = Some (PStr ''t3'')" by blast
  from B(1) d2 c2 e2 B(4) m2 t3 B(6) have
    "\<exists>st2 r2 col2 e2. index_document ?E ?st1 ?rq ''t3'' ''t4'' = Inr (st2, r2) \<and>
        doc_id r2 = ''md5:a/b.md'' \<and> count st2 = 1 \<and> entries_with st2 ''md5:a/b.md'' = 1 \<and>
        collection st2 = Some col2 \<and> map_of col2 ''md5:a/b.md'' = Some e2 \<and>
        entry_metadata e2 ''indexed_at'' = Some (PStr ''t3'') \<and> last_indexed st2 = Some ''t4''"
    by blast
  with first d1 c1 show ?thesis by blast
qed

section \<open>The indexing service: the sweep\<close>

lemma sweep_loop_result:
  "\<exists>col'. foldl (sweep_step E st V stamp) (col, n, errs) xs =
     (col', n + length (filter (\<lambda>kf. \<not> isl (file_result E st V stamp kf)) xs),
      errs @ map (\<lambda>kf. (file_str V (snd kf), projl (file_result E st V stamp kf)))
               (filter (\<lambda>kf. isl (file_result E st V stamp kf)) xs))"
proof (induction xs arbitrary: col n errs)
  case Nil
  show ?case by simp
next
  case (Cons x xs)
  show ?case
  proof (cases "file_result E st V stamp x")
    case (Inl e)
    then have "sweep_step E st V stamp (col, n, errs) x = (col, n, errs @ [(file_str V (snd x), e)])"
      by (simp add: sweep_step_def)
    with Cons.IH [of col n "errs @ [(file_str V (snd x), e)]"] Inl show ?thesis by simp
  next
    case (Inr r)
    obtain i entry doc where r: "r = (i, entry, doc)" by (cases r)
    with Inr have "sweep_step E st V stamp (col, n, errs) x = (AList.update i entry col, n + 1, errs)"
      by (simp add: sweep_step_def)
    with Cons.IH [of "AList.update i entry col" "n + 1" errs] Inr show ?thesis by simp
  qed
qed

lemma length_filter_split:
  "length (filter (\<lambda>x. \<not> P x) xs) + length (filter P xs) = length xs"
  by (induction xs) simp_all

text \<open>
  Claim C7. With the service initialised and the vault directory present, the sweep
  returns a response and does not raise: a file whose reading, parsing, embedding,
  metadata or upsert fails is recorded with its exception, in order, and the other files are
  indexed; the indexed count is the number of files that did not fail, and together
  with the number of errors it is the number of files.
\<close>

theorem sweep_isolates_failures:
  assumes "collection st = Some col" and "indexer st = Some ix" and "vault_exists V"
  shows "\<exists>st' r. index_entire_vault E V st stamp now_end = Inr (st', r) \<and>
           total_files r = length (md_files V) \<and>
           indexed r = length (filter (\<lambda>kf. \<not> isl (file_result E st V stamp kf))
                                 (List.enumerate 0 (md_files V))) \<and>
           errors_list r = map (\<lambda>kf. (file_str V (snd kf), projl (file_result E st V stamp kf)))
                             (filter (\<lambda>kf. isl (file_result E st V stamp kf))
                                (List.enumerate 0 (md_files V))) \<and>
           indexed r + errors_length r = total_files r"
proof -
  let ?xs = "List.enumerate 0 (md_files V)"
  let ?ok = "filter (\<lambda>kf. \<not> isl (file_result E st V stamp kf)) ?xs"
  let ?bad = "filter (\<lambda>kf. isl (file_result E st V stamp kf)) ?xs"
  let ?errs = "map (\<lambda>kf. (file_str V (snd kf), projl (file_result E st V stamp kf))) ?bad"
  from sweep_loop_result [of E st V stamp col 0 "[]" ?xs] obtain col' where
    loop: "foldl (sweep_step E st V stamp) (col, 0, []) ?xs = (col', length ?ok, ?errs)"
    by auto
  let ?r = "\<lparr> sweep_success = True, indexed = length ?ok, total_files = length (md_files V),
              errors = (if ?errs \<noteq> [] then Some ?errs else None) \<rparr>"
  let ?st' = "st\<lparr> collection := Some col', last_indexed := Some now_end \<rparr>"
  have res: "index_entire_vault E V st stamp now_end = Inr (?st', ?r)"
    using assms by (simp add: index_entire_vault_def loop)
  have el: "errors_list ?r = ?errs" by (simp add: errors_list_def)
  have elen: "errors_length ?r = length ?bad"
    by (cases "?bad = []") (simp_all add: errors_length_def)
  have "length ?ok + length ?bad = length ?xs" by (rule length_filter_split)
  then have sum: "indexed ?r + errors_length ?r = total_files ?r"
    unfolding elen by simp
  have "index_entire_vault E V st stamp now_end = Inr (?st', ?r) \<and>
           total_files ?r = length (md_files V) \<and> indexed ?r = length ?ok \<and>
           errors_list ?r = ?errs \<and> indexed ?r + errors_length ?r = total_files ?r"
    using res el sum by simp
  then show ?thesis by blast
qed


theorem sweep_isolates_failures_witness:
  "\<exists>st' r.
     index_entire_vault
       \<lparr> yaml_safe_load = (\<lambda>s. Inl YAMLError), md5_hexdigest = (\<lambda>s. ''md5:'' @ s),
         stored_metadata = drop_none \<rparr>
       \<lparr> vault_path = ''/vault'', vault_exists = True,
         md_files = [''a.md'', ''b.md'', ''c.md'', ''d.md''],
         read_text = (\<lambda>p. if p = ''d.md'' then Inl (Failure ''PermissionError'') else Inr ''hello'') \<rparr>
       \<lparr> embedder = Some (\<lambda>s. Inr (length s)), collection = Some [],
         indexer = Some \<lparr> chunk_size = 500, chunk_overlap = 50 \<rparr>, last_indexed = None \<rparr>
       (\<lambda>k. ''now'') ''end'' = Inr (st', r) \<and>
     indexed r = 3 \<and> total_files r = 4 \<and> errors_length r = 1 \<and>
     errors r = Some [(''/vault/d.md'', Failure ''PermissionError'')]"
proof -
  let ?E = "\<lparr> yaml_safe_load = (\<lambda>s. Inl YAMLError), md5_hexdigest = (\<lambda>s. ''md5:'' @ s),
         stored_metadata = drop_none \<rparr>"
  let ?V = "\<lparr> vault_path = ''/vault'', vault_exists = True,
         md_files = [''a.md'', ''b.md'', ''c.md'', ''d.md''],
         read_text = (\<lambda>p. if p = ''d.md'' then Inl (Failure ''PermissionError'') else Inr ''hello'') \<rparr>"
  let ?st = "\<lparr> embedder = Some (\<lambda>s. Inr (length s)), collection = Some [],
         indexer = Some \<lparr> chunk_size = 500, chunk_overlap = 50 \<rparr>, last_indexed = None \<rparr>
         :: nat AppState"
  let ?stamp = "\<lambda>k::nat. ''now''"
  have ok: "filter (\<lambda>kf. \<not> isl (file_result ?E ?st ?V ?stamp kf)) (List.enumerate 0 (md_files ?V))
      = [(0, ''a.md''), (1, ''b.md''), (2, ''c.md'')]"
    by code_simp
  have bad: "map (\<lambda>kf. (file_str ?V (snd kf), projl (file_result ?E ?st ?V ?stamp kf)))
        (filter (\<lambda>kf. isl (file_result ?E ?st ?V ?stamp kf)) (List.enumerate 0 (md_files ?V)))
      = [(''/vault/d.md'', Failure ''PermissionError'')]"
    by code_simp
  have h1: "collection ?st = Some []" by simp
  have h2: "indexer ?st = Some \<lparr> chunk_size = 500, chunk_overlap = 50 \<rparr>" by simp
  have h3: "vault_exists ?V" by simp
  from sweep_isolates_failures [OF h1 h2 h3, of ?E ?stamp "''end''"] obtain st' r where
    r: "index_entire_vault ?E ?V ?st ?stamp ''end'' = Inr (st', r)"
      "total_files r = length (md_files ?V)"
      "indexed r = length (filter (\<lambda>kf. \<not> isl (file_result ?E ?st ?V ?stamp kf))
                                 (List.enumerate 0 (md_files ?V)))"
      "errors_list r = map (\<lambda>kf. (file_str ?V (snd kf), projl (file_result ?E ?st ?V ?stamp kf)))
                             (filter (\<lambda>kf. isl (file_result ?E ?st ?V ?stamp kf))
                                (List.enumerate 0 (md_files ?V)))"
      "indexed r + errors_length r = total_files r"
    by blast
  from r(3) have n: "indexed r = 3" unfolding ok by simp
  from r(2) have t: "total_files r = 4" by simp
  from r(5) n t have l: "errors_length r = 1" by simp
  from r(4) have "errors_list r = [(''/vault/d.md'', Failure ''PermissionError'')]"
    unfolding bad .
  with l have e: "errors r = Some [(''/vault/d.md'', Failure ''PermissionError'')]"
    by (cases "errors r") (simp_all add: errors_list_def errors_length_def)
  from r(1) n t l e show ?thesis by blast
qed

section \<open>The indexing service: the stored category\<close>

lemma category_or_default_string:
  assumes "is_str (category d) \<or> \<not> truthy (category d)"
  shows "\<exists>s. s \<noteq> [] \<and> category_or_default d = PStr s"
  using assms by (cases "category d") (auto simp: category_or_default_def is_str_def)

lemma index_entry_category:
  assumes ks: "keeps_strings E"
    and ie: "index_entry E st p raw extra now = Inr (i, e, d)"
    and no: "extra ''category'' = None"
    and str: "is_str (category d) \<or> \<not> truthy (category d)"
  shows "(\<exists>s. s \<noteq> [] \<and> entry_metadata e ''category'' = Some (PStr s) \<and>
              PStr s = category_or_default d) \<and>
         (\<not> truthy (category d) \<longrightarrow>
            entry_metadata e ''category'' = Some (PStr ''uncategorized'') \<and>
            where_matches (where_filter (Some ''uncategorized'')) (entry_metadata e))"
proof -
  from index_entry_given [OF ie] obtain md where
    md: "upsert_metadata p d extra now = Inr md" and
    kept: "stored_metadata E md = Inr (entry_metadata e)"
    by blast
  from upsert_metadata_category [OF md] no
  have given: "md ''category'' = Some (category_or_default d)" by simp
  from category_or_default_string [OF str] obtain s where
    s: "s \<noteq> []" "category_or_default d = PStr s"
    by blast
  from ks kept given s(2) have stored: "entry_metadata e ''category'' = Some (PStr s)"
    unfolding keeps_strings_def by metis
  have "\<not> truthy (category d) \<longrightarrow> s = ''uncategorized''"
    using s(2) by (auto simp: category_or_default_def)
  with stored s show ?thesis
    by (auto simp: where_matches_def where_filter_def)
qed


lemma drop_none_lookup:
  "drop_none md = Inr kept \<Longrightarrow> kept k = (if md k = Some PNone then None else md k)"
  by (auto simp: drop_none_def)

lemma parse_hello_example:
  "parse_markdown (\<lambda>s. Inl YAMLError) ''hello'' ''b.md'' =
     Inr \<lparr> path = ''b.md'', title = PStr ''B'', content = ''hello'', category = PNone,
           tags = PList [], metadata = [], chunks = None \<rparr>"
  by code_simp

lemma parse_year_example:
  "parse_markdown (\<lambda>s. Inr (PDict [(PStr ''category'', PInt 2024)]))
     (''---'' @ [nl] @ ''category: 2024'' @ [nl] @ ''---'' @ [nl] @ ''hello'') ''n.md'' =
     Inr \<lparr> path = ''n.md'', title = PStr ''N'', content = ''hello'', category = PInt 2024,
           tags = PList [], metadata = [(PStr ''category'', PInt 2024)], chunks = None \<rparr>"
  by code_simp

lemma index_document_result:
  assumes "index_entry E st (request_path rq) (request_content rq) (extra_metadata rq) ta
      = Inr (i, e, d)"
    and "collection st = Some col" and "indexer st = Some ix"
  shows "\<exists>st' r col'. index_document E st rq ta tb = Inr (st', r) \<and>
           collection st' = Some col' \<and> map_of col' (doc_id r) = Some e"
  using assms by (simp add: index_document_def update_conv')

text \<open>
  Claim C10, as stated: every entry written by the index operation or by the sweep has a
  \<^verbatim>\<open>category\<close> that is a string and is present, \<^verbatim>\<open>"uncategorized"\<close> for a document without
  category. Three entries for which it fails. In \<^verbatim>\<open>index_document\<close> the caller's metadata
  is merged after the defaults: for a document without category, the caller's
  \<^verbatim>\<open>{"category": "notes"}\<close> stores \<^verbatim>\<open>"notes"\<close>, which the filter \<^verbatim>\<open>"uncategorized"\<close> does not
  match; and the caller's \<^verbatim>\<open>{"category": None}\<close>, in a collection that stores no key whose
  value is \<^verbatim>\<open>None\<close>, stores an entry without category. In the sweep, a file whose
  frontmatter is \<^verbatim>\<open>category: 2024\<close> is stored with the integer as its category.
\<close>

theorem stored_category_counterexample:
  "(\<exists>st' r col e d.
     index_document
       \<lparr> yaml_safe_load = (\<lambda>s. Inl YAMLError), md5_hexdigest = (\<lambda>s. ''md5:'' @ s),
         stored_metadata = drop_none \<rparr>
       \<lparr> embedder = Some (\<lambda>s. Inr (length s)), collection = Some [],
         indexer = Some \<lparr> chunk_size = 500, chunk_overlap = 50 \<rparr>, last_indexed = None \<rparr>
       \<lparr> request_path = ''b.md'', request_content = ''hello'',
         request_metadata = Some [''category'' \<mapsto> PStr ''notes''] \<rparr> ''t1'' ''t2'' = Inr (st', r) \<and>
     parse_markdown (\<lambda>s. Inl YAMLError) ''hello'' ''b.md'' = Inr d \<and> category d = PNone \<and>
     collection st' = Some col \<and> map_of col (doc_id r) = Some e \<and>
     entry_metadata e ''category'' = Some (PStr ''notes'') \<and>
     \<not> where_matches (where_filter (Some ''uncategorized'')) (entry_metadata e)) \<and>
   (\<exists>st' r col e.
     index_document
       \<lparr> yaml_safe_load = (\<lambda>s. Inl YAMLError), md5_hexdigest = (\<lambda>s. ''md5:'' @ s),
         stored_metadata = drop_none \<rparr>
       \<lparr> embedder = Some (\<lambda>s. Inr (length s)), collection = Some [],
         indexer = Some \<lparr> chunk_size = 500, chunk_overlap = 50 \<rparr>, last_indexed = None \<rparr>
       \<lparr> request_path = ''b.md'', request_content = ''hello'',
         request_metadata = Some [''category'' \<mapsto> PNone] \<rparr> ''t1'' ''t2'' = Inr (st', r) \<and>
     collection st' = Some col \<and> map_of col (doc_id r) = Some e \<and>
     entry_metadata e ''category'' = None) \<and>
   (\<exists>i e d.
     file_result
       \<lparr> yaml_safe_load = (\<lambda>s. Inr (PDict [(PStr ''category'', PInt 2024)])),
         md5_hexdigest = (\<lambda>s. ''md5:'' @ s), stored_metadata = drop_none \<rparr>
       \<lparr> embedder = Some (\<lambda>s. Inr (length s)), collection = Some [],
         indexer = Some \<lparr> chunk_size = 500, chunk_overlap = 50 \<rparr>, last_indexed = None \<rparr>
       \<lparr> vault_path = ''/vault'', vault_exists = True, md_files = [''n.md''],
         read_text = (\<lambda>p. Inr (''---'' @ [nl] @ ''category: 2024'' @ [nl] @ ''---'' @ [nl] @ ''hello'')) \<rparr>
       (\<lambda>k. ''now'') (0, ''n.md'') = Inr (i, e, d) \<and>
     entry_metadata e ''category'' = Some (PInt 2024))"
proof (intro conjI)
  let ?E = "\<lparr> yaml_safe_load = (\<lambda>s. Inl YAMLError), md5_hexdigest = (\<lambda>s. ''md5:'' @ s),
              stored_metadata = drop_none \<rparr>"
  let ?st = "\<lparr> embedder = Some (\<lambda>s. Inr (length s)), collection = Some [],
         indexer = Some \<lparr> chunk_size = 500, chunk_overlap = 50 \<rparr>, last_indexed = None \<rparr>
         :: nat AppState"
  have st: "collection ?st = Some []" "indexer ?st = Some \<lparr> chunk_size = 500, chunk_overlap = 50 \<rparr>"
    by simp_all
  show "\<exists>st' r col e d.
     index_document ?E ?st
       \<lparr> request_path = ''b.md'', request_content = ''hello'',
         request_metadata = Some [''category'' \<mapsto> PStr ''notes''] \<rparr> ''t1'' ''t2'' = Inr (st', r) \<and>
     parse_markdown (\<lambda>s. Inl YAMLError) ''hello'' ''b.md'' = Inr d \<and> category d = PNone \<and>
     collection st' = Some col \<and> map_of col (doc_id r) = Some e \<and>
     entry_metadata e ''category'' = Some (PStr ''notes'') \<and>
     \<not> where_matches (where_filter (Some ''uncategorized'')) (entry_metadata e)"
  proof -
    let ?x = "[''category'' \<mapsto> PStr ''notes'']"
    let ?rq = "\<lparr> request_path = ''b.md'', request_content = ''hello'', request_metadata = Some ?x \<rparr>"
    have "\<exists>x. index_entry ?E ?st ''b.md'' ''hello'' ?x ''t1'' = Inr x"
      by (simp add: index_entry_def parse_hello_example upsert_metadata_def add_tags_def
            drop_none_def)
    then obtain i e d where
      ie: "index_entry ?E ?st ''b.md'' ''hello'' ?x ''t1'' = Inr (i, e, d)"
      by (metis prod_cases3)
    then have ie': "index_entry ?E ?st (request_path ?rq) (request_content ?rq)
        (extra_metadata ?rq) ''t1'' = Inr (i, e, d)"
      by (simp add: extra_metadata_def)
    from index_document_result [OF ie' st, of "''t2''"] obtain st' r col where
      res: "index_document ?E ?st ?rq ''t1'' ''t2'' = Inr (st', r)"
        "collection st' = Some col" "map_of col (doc_id r) = Some e"
      by blast
    from index_entry_parse [OF ie]
    have p: "parse_markdown (\<lambda>s. Inl YAMLError) ''hello'' ''b.md'' = Inr d" by simp
    then have c: "category d = PNone" unfolding parse_hello_example by auto
    from index_entry_given [OF ie] obtain md where
      md: "upsert_metadata ''b.md'' d ?x ''t1'' = Inr md" and
      kept: "stored_metadata ?E md = Inr (entry_metadata e)"
      by blast
    from upsert_metadata_category [OF md] have "md ''category'' = Some (PStr ''notes'')" by simp
    with drop_none_lookup [of md "entry_metadata e" "''category''"] kept
    have m: "entry_metadata e ''category'' = Some (PStr ''notes'')"
      by simp
    then have w: "\<not> where_matches (where_filter (Some ''uncategorized'')) (entry_metadata e)"
      by (simp add: where_matches_def where_filter_def)
    from res p c m w show ?thesis by blast
  qed
  show "\<exists>st' r col e.
     index_document ?E ?st
       \<lparr> request_path = ''b.md'', request_content = ''hello'',
         request_metadata = Some [''category'' \<mapsto> PNone] \<rparr> ''t1'' ''t2'' = Inr (st', r) \<and>
     collection st' = Some col \<and> map_of col (doc_id r) = Some e \<and>
     entry_metadata e ''category'' = None"
  proof -
    let ?x = "[''category'' \<mapsto> PNone]"
    let ?rq = "\<lparr> request_path = ''b.md'', request_content = ''hello'', request_metadata = Some ?x \<rparr>"
    have "\<exists>x. index_entry ?E ?st ''b.md'' ''hello'' ?x ''t1'' = Inr x"
      by (simp add: index_entry_def parse_hello_example upsert_metadata_def add_tags_def
            drop_none_def)
    then obtain i e d where
      ie: "index_entry ?E ?st ''b.md'' ''hello'' ?x ''t1'' = Inr (i, e, d)"
      by (metis prod_cases3)
    then have ie': "index_entry ?E ?st (request_path ?rq) (request_content ?rq)
        (extra_metadata ?rq) ''t1'' = Inr (i, e, d)"
      by (simp add: extra_metadata_def)
    from index_document_result [OF ie' st, of "''t2''"] obtain st' r col where
      res: "index_document ?E ?st ?rq ''t1'' ''t2'' = Inr (st', r)"
        "collection st' = Some col" "map_of col (doc_id r) = Some e"
      by blast
    from index_entry_given [OF ie] obtain md where
      md: "upsert_metadata ''b.md'' d ?x ''t1'' = Inr md" and
      kept: "stored_metadata ?E md = Inr (entry_metadata e)"
      by blast
    from upsert_metadata_category [OF md] have "md ''category'' = Some PNone" by simp
    with drop_none_lookup [of md "entry_metadata e" "''category''"] kept
    have m: "entry_metadata e ''category'' = None"
      by simp
    from res m show ?thesis by blast
  qed
  let ?E2 = "\<lparr> yaml_safe_load = (\<lambda>s. Inr (PDict [(PStr ''category'', PInt 2024)])),
         md5_hexdigest = (\<lambda>s. ''md5:'' @ s), stored_metadata = drop_none \<rparr>"
  let ?raw = "''---'' @ [nl] @ ''category: 2024'' @ [nl] @ ''---'' @ [nl] @ ''hello''"
  let ?V = "\<lparr> vault_path = ''/vault'', vault_exists = True, md_files = [''n.md''],
         read_text = (\<lambda>p. Inr ?raw) \<rparr>"
  show "\<exists>i e d. file_result ?E2 ?st ?V (\<lambda>k. ''now'') (0, ''n.md'') = Inr (i, e, d) \<and>
     entry_metadata e ''category'' = Some (PInt 2024)"
  proof -
    have "\<exists>x. index_entry ?E2 ?st ''n.md'' ?raw Map.empty ''now'' = Inr x"
      unfolding index_entry_def
      by (simp only: Env.select_convs parse_year_example)
         (simp add: upsert_metadata_def add_tags_def drop_none_def)
    then obtain i e d where
      ie: "index_entry ?E2 ?st ''n.md'' ?raw Map.empty ''now'' = Inr (i, e, d)"
      by (metis prod_cases3)
    then have fr: "file_result ?E2 ?st ?V (\<lambda>k. ''now'') (0, ''n.md'') = Inr (i, e, d)"
      unfolding file_result_def by (simp only: Vault.select_convs snd_conv fst_conv sum.case)
    from index_entry_parse [OF ie] have "d = \<lparr> path = ''n.md'', title = PStr ''N'', content = ''hello'',
        category = PInt 2024, tags = PList [], metadata = [(PStr ''category'', PInt 2024)],
        chunks = None \<rparr>"
      by (simp only: Env.select_convs parse_year_example sum.inject)
    then have c: "category_or_default d = PInt 2024" by (simp add: category_or_default_def)
    from index_entry_given [OF ie] obtain md where
      md: "upsert_metadata ''n.md'' d Map.empty ''now'' = Inr md" and
      kept: "stored_metadata ?E2 md = Inr (entry_metadata e)"
      by blast
    from upsert_metadata_category [OF md] c have "md ''category'' = Some (PInt 2024)" by simp
    with drop_none_lookup [of md "entry_metadata e" "''category''"] kept
    have "entry_metadata e ''category'' = Some (PInt 2024)"
      by simp
    with fr show ?thesis by blast
  qed
qed


text \<open>
  Claim C10, amended. In a collection that stores string values as given: every entry
  written by the sweep, and every entry written by \<^verbatim>\<open>index_document\<close> when the caller's
  metadata has no \<^verbatim>\<open>category\<close> key, for a document whose parsed category is a string or
  is false in Python's sense, has a \<^verbatim>\<open>category\<close> that is present and is a string that is
  not empty: the parsed category, or \<^verbatim>\<open>"uncategorized"\<close> when the document has none; and
  then the filter \<^verbatim>\<open>"uncategorized"\<close> matches the entry.
\<close>

theorem stored_category_default:
  assumes ks: "keeps_strings E"
  shows
   "(index_document E st rq ta tb = Inr (st', r) \<longrightarrow>
      (\<exists>col' e d. collection st' = Some col' \<and> map_of col' (doc_id r) = Some e \<and>
         parse_markdown (yaml_safe_load E) (request_content rq) (request_path rq) = Inr d \<and>
         (extra_metadata rq ''category'' = None \<and>
          (is_str (category d) \<or> \<not> truthy (category d)) \<longrightarrow>
            (\<exists>s. s \<noteq> [] \<and> entry_metadata e ''category'' = Some (PStr s) \<and>
                 PStr s = category_or_default d) \<and>
            (\<not> truthy (category d) \<longrightarrow>
               entry_metadata e ''category'' = Some (PStr ''uncategorized'') \<and>
               where_matches (where_filter (Some ''uncategorized'')) (entry_metadata e))))) \<and>
    (file_result E st V stamp kf = Inr (i, e, d) \<longrightarrow>
       (\<forall>col n errs. \<exists>col'.
          sweep_step E st V stamp (col, n, errs) kf = (col', n + 1, errs) \<and>
          map_of col' i = Some e) \<and>
       (is_str (category d) \<or> \<not> truthy (category d) \<longrightarrow>
          (\<exists>s. s \<noteq> [] \<and> entry_metadata e ''category'' = Some (PStr s) \<and>
               PStr s = category_or_default d) \<and>
          (\<not> truthy (category d) \<longrightarrow>
             entry_metadata e ''category'' = Some (PStr ''uncategorized'') \<and>
             where_matches (where_filter (Some ''uncategorized'')) (entry_metadata e))))"
proof -
  have A: "index_document E st rq ta tb = Inr (st', r) \<longrightarrow>
      (\<exists>col' e d. collection st' = Some col' \<and> map_of col' (doc_id r) = Some e \<and>
         parse_markdown (yaml_safe_load E) (request_content rq) (request_path rq) = Inr d \<and>
         (extra_metadata rq ''category'' = None \<and>
          (is_str (category d) \<or> \<not> truthy (category d)) \<longrightarrow>
            (\<exists>s. s \<noteq> [] \<and> entry_metadata e ''category'' = Some (PStr s) \<and>
                 PStr s = category_or_default d) \<and>
            (\<not> truthy (category d) \<longrightarrow>
               entry_metadata e ''category'' = Some (PStr ''uncategorized'') \<and>
               where_matches (where_filter (Some ''uncategorized'')) (entry_metadata e))))"
  proof
    assume a: "index_document E st rq ta tb = Inr (st', r)"
    then obtain col i e d where
      ie: "index_entry E st (request_path rq) (request_content rq) (extra_metadata rq) ta
             = Inr (i, e, d)" and
      st': "collection st' = Some (AList.update i e col)" and r: "doc_id r = i"
      by (auto simp: index_document_def split: option.splits sum.splits prod.splits)
    have look: "map_of (AList.update i e col) (doc_id r) = Some e"
      by (simp add: update_conv' r)
    have cat: "extra_metadata rq ''category'' = None \<and>
            (is_str (category d) \<or> \<not> truthy (category d)) \<longrightarrow>
              (\<exists>s. s \<noteq> [] \<and> entry_metadata e ''category'' = Some (PStr s) \<and>
                   PStr s = category_or_default d) \<and>
              (\<not> truthy (category d) \<longrightarrow>
                 entry_metadata e ''category'' = Some (PStr ''uncategorized'') \<and>
                 where_matches (where_filter (Some ''uncategorized'')) (entry_metadata e))"
      using index_entry_category [OF ks ie] by blast
    from st' look index_entry_parse [OF ie] cat
    show "\<exists>col' e d. collection st' = Some col' \<and> map_of col' (doc_id r) = Some e \<and>
           parse_markdown (yaml_safe_load E) (request_content rq) (request_path rq) = Inr d \<and>
           (extra_metadata rq ''category'' = None \<and>
            (is_str (category d) \<or> \<not> truthy (category d)) \<longrightarrow>
              (\<exists>s. s \<noteq> [] \<and> entry_metadata e ''category'' = Some (PStr s) \<and>
                   PStr s = category_or_default d) \<and>
              (\<not> truthy (category d) \<longrightarrow>
                 entry_metadata e ''category'' = Some (PStr ''uncategorized'') \<and>
                 where_matches (where_filter (Some ''uncategorized'')) (entry_metadata e)))"
      by blast
  qed
  have B: "file_result E st V stamp kf = Inr (i, e, d) \<longrightarrow>
       (\<forall>col n errs. \<exists>col'.
          sweep_step E st V stamp (col, n, errs) kf = (col', n + 1, errs) \<and>
          map_of col' i = Some e) \<and>
       (is_str (category d) \<or> \<not> truthy (category d) \<longrightarrow>
          (\<exists>s. s \<noteq> [] \<and> entry_metadata e ''category'' = Some (PStr s) \<and>
               PStr s = category_or_default d) \<and>
          (\<not> truthy (category d) \<longrightarrow>
             entry_metadata e ''category'' = Some (PStr ''uncategorized'') \<and>
             where_matches (where_filter (Some ''uncategorized'')) (entry_metadata e)))"
  proof
    assume a: "file_result E st V stamp kf = Inr (i, e, d)"
    have written: "\<forall>col n errs. \<exists>col'.
          sweep_step E st V stamp (col, n, errs) kf = (col', n + 1, errs) \<and>
          map_of col' i = Some e"
      by (simp add: sweep_step_def a update_conv')
    from a obtain raw where
      ie: "index_entry E st (snd kf) raw Map.empty (stamp (fst kf)) = Inr (i, e, d)"
      by (auto simp: file_result_def split: sum.splits)
    have no: "Map.empty ''category'' = (None :: pyval option)" by simp
    have cat: "is_str (category d) \<or> \<not> truthy (category d) \<longrightarrow>
          (\<exists>s. s \<noteq> [] \<and> entry_metadata e ''category'' = Some (PStr s) \<and>
               PStr s = category_or_default d) \<and>
          (\<not> truthy (category d) \<longrightarrow>
             entry_metadata e ''category'' = Some (PStr ''uncategorized'') \<and>
             where_matches (where_filter (Some ''uncategorized'')) (entry_metadata e))"
      using index_entry_category [OF ks ie no] by blast
    from written cat
    show "(\<forall>col n errs. \<exists>col'.
          sweep_step E st V stamp (col, n, errs) kf = (col', n + 1, errs) \<and>
          map_of col' i = Some e) \<and>
       (is_str (category d) \<or> \<not> truthy (category d) \<longrightarrow>
          (\<exists>s. s \<noteq> [] \<and> entry_metadata e ''category'' = Some (PStr s) \<and>
               PStr s = category_or_default d) \<and>
          (\<not> truthy (category d) \<longrightarrow>
             entry_metadata e ''category'' = Some (PStr ''uncategorized'') \<and>
             where_matches (where_filter (Some ''uncategorized'')) (entry_metadata e)))"
      by (rule conjI)
  qed
  from A B show ?thesis by (rule conjI)
qed

theorem stored_category_default_witness:
  "keeps_strings
     \<lparr> yaml_safe_load = (\<lambda>s. Inl YAMLError), md5_hexdigest = (\<lambda>s. ''md5:'' @ s),
       stored_metadata = drop_none \<rparr> \<and>
   (\<exists>st' r col e.
     index_document
       \<lparr> yaml_safe_load = (\<lambda>s. Inl YAMLError), md5_hexdigest = (\<lambda>s. ''md5:'' @ s),
         stored_metadata = drop_none \<rparr>
       \<lparr> embedder = Some (\<lambda>s. Inr (length s)), collection = Some [],
         indexer = Some \<lparr> chunk_size = 500, chunk_overlap = 50 \<rparr>, last_indexed = None \<rparr>
       \<lparr> request_path = ''b.md'', request_content = ''hello'', request_metadata = None \<rparr>
       ''t1'' ''t2'' = Inr (st', r) \<and>
     collection st' = Some col \<and> map_of col (doc_id r) = Some e \<and>
     entry_metadata e ''category'' = Some (PStr ''uncategorized'') \<and>
     where_matches (where_filter (Some ''uncategorized'')) (entry_metadata e)) \<and>
   (\<exists>i e d.
     file_result
       \<lparr> yaml_safe_load = (\<lambda>s. Inl YAMLError), md5_hexdigest = (\<lambda>s. ''md5:'' @ s),
         stored_metadata = drop_none \<rparr>
       \<lparr> embedder = Some (\<lambda>s. Inr (length s)), collection = Some [],
         indexer = Some \<lparr> chunk_size = 500, chunk_overlap = 50 \<rparr>, last_indexed = None \<rparr>
       \<lparr> vault_path = ''/vault'', vault_exists = True, md_files = [''a/b.md''],
         read_text = (\<lambda>p. Inr ''no frontmatter here'') \<rparr>
       (\<lambda>k. ''now'') (0, ''a/b.md'') = Inr (i, e, d) \<and>
     category d = PStr ''a'' \<and> entry_metadata e ''category'' = Some (PStr ''a''))"
proof -
  let ?E = "\<lparr> yaml_safe_load = (\<lambda>s. Inl YAMLError), md5_hexdigest = (\<lambda>s. ''md5:'' @ s),
              stored_metadata = drop_none \<rparr>"
  let ?st = "\<lparr> embedder = Some (\<lambda>s. Inr (length s)), collection = Some [],
         indexer = Some \<lparr> chunk_size = 500, chunk_overlap = 50 \<rparr>, last_indexed = None \<rparr>
         :: nat AppState"
  let ?rq = "\<lparr> request_path = ''b.md'', request_content = ''hello'', request_metadata = None \<rparr>"
  have ks: "keeps_strings ?E" by (rule drop_none_keeps_strings) simp
  have "\<exists>x. index_document ?E ?st ?rq ''t1'' ''t2'' = Inr x"
    by (simp add: index_document_def index_entry_def parse_hello_example upsert_metadata_def
          add_tags_def extra_metadata_def drop_none_def)
  then obtain st' r where res: "index_document ?E ?st ?rq ''t1'' ''t2'' = Inr (st', r)"
    by (metis surj_pair)
  from conjunct1 [OF stored_category_default [OF ks], THEN mp, OF res] obtain col e d where
    f: "collection st' = Some col" "map_of col (doc_id r) = Some e"
      "parse_markdown (yaml_safe_load ?E) (request_content ?rq) (request_path ?rq) = Inr d"
      "extra_metadata ?rq ''category'' = None \<and>
          (is_str (category d) \<or> \<not> truthy (category d)) \<longrightarrow>
            (\<exists>s. s \<noteq> [] \<and> entry_metadata e ''category'' = Some (PStr s) \<and>
                 PStr s = category_or_default d) \<and>
            (\<not> truthy (category d) \<longrightarrow>
               entry_metadata e ''category'' = Some (PStr ''uncategorized'') \<and>
               where_matches (where_filter (Some ''uncategorized'')) (entry_metadata e))"
    by blast
  from f(3) have c: "category d = PNone" by (auto simp: parse_hello_example)
  have x: "extra_metadata ?rq ''category'' = None" by (simp add: extra_metadata_def)
  from f(4) c x have m: "entry_metadata e ''category'' = Some (PStr ''uncategorized'')"
    and w: "where_matches (where_filter (Some ''uncategorized'')) (entry_metadata e)"
    by simp_all
  from res f(1) f(2) m w have
    "\<exists>st' r col e. index_document ?E ?st ?rq ''t1'' ''t2'' = Inr (st', r) \<and>
       collection st' = Some col \<and> map_of col (doc_id r) = Some e \<and>
       entry_metadata e ''category'' = Some (PStr ''uncategorized'') \<and>
       where_matches (where_filter (Some ''uncategorized'')) (entry_metadata e)"
    by blast
  then have first: "\<exists>st' r col e. index_document ?E ?st ?rq ''t1'' ''t2'' = Inr (st', r) \<and>
       collection st' = Some col \<and> map_of col (doc_id r) = Some e \<and>
       entry_metadata e ''category'' = Some (PStr ''uncategorized'') \<and>
       where_matches (where_filter (Some ''uncategorized'')) (entry_metadata e)" .
  let ?V = "\<lparr> vault_path = ''/vault'', vault_exists = True, md_files = [''a/b.md''],
         read_text = (\<lambda>p. Inr ''no frontmatter here'') \<rparr>"
  have "\<exists>x. file_result ?E ?st ?V (\<lambda>k. ''now'') (0, ''a/b.md'') = Inr x"
    by (simp add: file_result_def index_entry_def parse_no_frontmatter_example upsert_metadata_def
          add_tags_def drop_none_def)
  then obtain i2 e2 d2 where
    fr: "file_result ?E ?st ?V (\<lambda>k. ''now'') (0, ''a/b.md'') = Inr (i2, e2, d2)"
    by (metis prod_cases3)
  then have "parse_markdown (\<lambda>s. Inl YAMLError) ''no frontmatter here'' ''a/b.md'' = Inr d2"
    by (auto simp: file_result_def dest: index_entry_parse)
  then have c2: "category d2 = PStr ''a''" by (auto simp: parse_no_frontmatter_example)
  from conjunct2 [OF stored_category_default [OF ks], THEN mp, OF fr]
  have "is_str (category d2) \<or> \<not> truthy (category d2) \<longrightarrow>
          (\<exists>s. s \<noteq> [] \<and> entry_metadata e2 ''category'' = Some (PStr s) \<and>
               PStr s = category_or_default d2)"
    by blast
  with c2 have "entry_metadata e2 ''category'' = Some (PStr ''a'')"
    by (auto simp: is_str_def category_or_default_def)
  with fr c2 have second: "\<exists>i e d. file_result ?E ?st ?V (\<lambda>k. ''now'') (0, ''a/b.md'') = Inr (i, e, d) \<and>
     category d = PStr ''a'' \<and> entry_metadata e ''category'' = Some (PStr ''a'')"
    by blast
  from ks first second show ?thesis by (intro conjI)
qed

section \<open>The embedding model: the zero-norm guard\<close>






end
